theory Spec2Isabelle
  imports Main "HOL-Library.Word"
begin

section \<open>The streaming JSON encoder of BSG_KSJSONCodec.c\<close>

text \<open>
  A shallow embedding of the encoder half of \<^verbatim>\<open>BSG_KSJSONCodec.c\<close>.
  Conventions of the embedding:
  \<^item> a byte is a \<^typ>\<open>char\<close>, a byte run is a \<^typ>\<open>string\<close>;
  \<^item> a pointer argument that may be \<^verbatim>\<open>NULL\<close> is a \<^typ>\<open>string option\<close>: \<open>None\<close> is the
    null pointer, \<open>Some m\<close> points at the bytes \<open>m\<close>; a length argument \<open>n\<close> that comes
    with it selects \<open>take n m\<close>;
  \<^item> the mutable context is passed in and returned;
  \<^item> every function that can fault in C (a write outside the work buffer, an index
    outside \<^verbatim>\<open>isObject\<close>, a null dereference, a signed negation that overflows)
    returns an \<open>option\<close>, and \<open>None\<close> is that fault.
\<close>

subsection \<open>Status codes and the encoding context\<close>

text \<open>
  Modelled from the spec: the status codes. Their declaration is in \<^verbatim>\<open>BSG_KSJSONCodec.h\<close>,
  which is not among the sources; the specification lists OK, invalid-character,
  cannot-add-data, incomplete and invalid-data, and the code names them
  \<^verbatim>\<open>BSG_KSJSON_OK\<close>, \<^verbatim>\<open>BSG_KSJSON_ERROR_INVALID_CHARACTER\<close> and so on (lines 76-84). The code only
  ever compares a result with \<^verbatim>\<open>BSG_KSJSON_OK\<close> and returns the others by name.
\<close>

datatype status =
    BSG_KSJSON_OK
  | BSG_KSJSON_ERROR_INVALID_CHARACTER
  | BSG_KSJSON_ERROR_CANNOT_ADD_DATA
  | BSG_KSJSON_ERROR_INCOMPLETE
  | BSG_KSJSON_ERROR_INVALID_DATA

text \<open>
  Modelled from the spec: the sink and the encoding context, both declared in
  \<^verbatim>\<open>BSG_KSJSONCodec.h\<close>. The sink is the call \<^verbatim>\<open>addJSONData(data, length, userData)\<close> with a
  status as its result; the state behind \<^verbatim>\<open>userData\<close> is the type parameter \<open>'u\<close>, and the
  sink returns the new state with the status. The context has the fields the code uses:
  the sink and its \<^verbatim>\<open>userData\<close>, the depth \<^verbatim>\<open>containerLevel\<close>, the array \<^verbatim>\<open>isObject\<close> of
  container kinds indexed by depth (fixed capacity), \<^verbatim>\<open>containerFirstEntry\<close> and
  \<^verbatim>\<open>prettyPrint\<close>.
\<close>

type_synonym 'u BSG_KSJSONAddDataFunc = "string \<Rightarrow> 'u \<Rightarrow> status \<times> 'u"

record 'u BSG_KSJSONEncodeContext =
  addJSONData :: "'u BSG_KSJSONAddDataFunc"
  userData :: 'u
  containerLevel :: int
  isObject :: "bool list"
  containerFirstEntry :: bool
  prettyPrint :: bool

type_synonym 'u result = "(status \<times> 'u BSG_KSJSONEncodeContext) option"

text \<open>The macro \<^verbatim>\<open>addJSONData(CONTEXT, DATA, LENGTH)\<close> (lines 272-273).\<close>

definition call_addJSONData ::
  "'u BSG_KSJSONEncodeContext \<Rightarrow> string \<Rightarrow> status \<times> 'u BSG_KSJSONEncodeContext" where
  "call_addJSONData ctx bytes =
     (case addJSONData ctx bytes (userData ctx) of
        (res, u) \<Rightarrow> (res, ctx\<lparr>userData := u\<rparr>))"

text \<open>
  The pattern \<^verbatim>\<open>if ((result = ...) != BSG_KSJSON_OK) return result;\<close>: a fault or a
  status other than OK ends the function, OK continues with the updated context.
\<close>

definition on_ok :: "'u result \<Rightarrow> ('u BSG_KSJSONEncodeContext \<Rightarrow> 'u result) \<Rightarrow> 'u result" where
  "on_ok r k =
     (case r of
        None \<Rightarrow> None
      | Some (res, ctx) \<Rightarrow> if res \<noteq> BSG_KSJSON_OK then Some (res, ctx) else k ctx)"

text \<open>\<^verbatim>\<open>strlen\<close>: the bytes before the first NUL.\<close>

definition c_string :: "string \<Rightarrow> string" where
  "c_string m = takeWhile (\<lambda>c. c \<noteq> CHR 0x00) m"

definition strlen :: "string \<Rightarrow> nat" where
  "strlen m = length (c_string m)"

subsection \<open>Number formatter\<close>

definition bsg_g_hexNybbles :: string where
  "bsg_g_hexNybbles = ''0123456789ABCDEF''"

text \<open>
  \<^verbatim>\<open>uint64_to_string\<close> (lines 99-121). The loop fills \<^verbatim>\<open>buff\<close> from its end; the
  accumulator is the part of \<^verbatim>\<open>buff\<close> from \<^verbatim>\<open>index\<close> to the terminator. The result is
  the text written to \<^verbatim>\<open>dst\<close>, without the NUL.
\<close>

function uint64_digits :: "64 word \<Rightarrow> string \<Rightarrow> string" where
  "uint64_digits v buff =
     (let buff' = char_of (unat (v mod 10) + 48) # buff;
          v' = v div 10
      in if v' = 0 then buff' else uint64_digits v' buff')"
  by pat_completeness auto

termination
proof (relation "measure (\<lambda>(v, buff). unat v)")
  show "wf (measure (\<lambda>(v, buff). unat v))" by simp
next
  fix v xa :: "64 word" and buff x :: string
  assume "xa = v div 10" and nz: "xa \<noteq> 0"
  then have "v div 10 \<noteq> 0" by simp
  then have "unat (v div 10) \<noteq> 0" by (simp add: unat_eq_0)
  then have "unat v div 10 \<noteq> 0" by (simp add: unat_div)
  then have "unat v div 10 < unat v" by (intro div_less_dividend) auto
  then show "((xa, x), v, buff) \<in> measure (\<lambda>(v, buff). unat v)"
    using \<open>xa = v div 10\<close> by (simp add: unat_div)
qed

declare uint64_digits.simps [simp del]

definition uint64_to_string :: "64 word \<Rightarrow> string" where
  "uint64_to_string v = (if v = 0 then ''0'' else uint64_digits v [])"

text \<open>
  \<^verbatim>\<open>int64_to_string\<close> (lines 129-135). \<^verbatim>\<open>-value\<close> is a negation in \<^verbatim>\<open>int64_t\<close>: at
  \<^verbatim>\<open>INT64_MIN\<close> its result is not representable, which is undefined behaviour in C;
  the model returns \<open>None\<close> there. Everywhere else the negated value converts to
  \<^verbatim>\<open>uint64_t\<close> unchanged.
\<close>

definition INT64_MIN :: "64 word" where
  "INT64_MIN = - (2 ^ 63)"

definition negate_int64 :: "64 word \<Rightarrow> 64 word option" where
  "negate_int64 v = (if v = INT64_MIN then None else Some (- v))"

definition int64_to_string :: "64 word \<Rightarrow> string option" where
  "int64_to_string v =
     (if v <s 0 then
        (case negate_int64 v of
           None \<Rightarrow> None
         | Some n \<Rightarrow> Some (CHR ''-'' # uint64_to_string n))
      else Some (uint64_to_string v))"

text \<open>
  An IEEE-754 double, by class: the code below the formatter's entry distinguishes only
  zero, NaN, infinity and the sign. A finite non-zero value is \<open>(if s then -1 else 1) *
  m * 2 ^ e\<close>.
\<close>

datatype double = Zero bool | Finite bool nat int | Infinity bool | NaN

text \<open>\<^verbatim>\<open>value < 0\<close>, \<^verbatim>\<open>-value\<close>, \<^verbatim>\<open>value == 0\<close>, \<^verbatim>\<open>isnan\<close>, \<^verbatim>\<open>isinf\<close> on doubles.\<close>

fun double_lt_zero :: "double \<Rightarrow> bool" where
  "double_lt_zero (Zero s) = False"
| "double_lt_zero (Finite s m e) = s"
| "double_lt_zero (Infinity s) = s"
| "double_lt_zero NaN = False"

fun double_neg :: "double \<Rightarrow> double" where
  "double_neg (Zero s) = Zero (\<not> s)"
| "double_neg (Finite s m e) = Finite (\<not> s) m e"
| "double_neg (Infinity s) = Infinity (\<not> s)"
| "double_neg NaN = NaN"

fun double_eq_zero :: "double \<Rightarrow> bool" where
  "double_eq_zero (Zero s) = True"
| "double_eq_zero d = False"

fun isnan :: "double \<Rightarrow> bool" where
  "isnan NaN = True"
| "isnan d = False"

fun isinf :: "double \<Rightarrow> bool" where
  "isinf (Infinity s) = True"
| "isinf d = False"

text \<open>
  \<^verbatim>\<open>positive_double_to_string\<close> (lines 151-236). Lines 172-235, the digits and exponent
  of a finite non-zero value, are computed with \<^verbatim>\<open>log10\<close> and \<^verbatim>\<open>pow\<close> in floating point;
  they are the parameter \<open>digits\<close> here.
\<close>

definition positive_double_to_string ::
  "(double \<Rightarrow> int \<Rightarrow> string) \<Rightarrow> double \<Rightarrow> int \<Rightarrow> string" where
  "positive_double_to_string digits v max_sig_digits =
     (if double_eq_zero v then ''0''
      else if isnan v then ''nan''
      else if isinf v then ''inf''
      else digits v max_sig_digits)"

text \<open>\<^verbatim>\<open>double_to_string\<close> (lines 247-253).\<close>

definition double_to_string ::
  "(double \<Rightarrow> int \<Rightarrow> string) \<Rightarrow> double \<Rightarrow> int \<Rightarrow> string" where
  "double_to_string digits v max_sig_digits =
     (if double_lt_zero v then
        CHR ''-'' # positive_double_to_string digits (double_neg v) max_sig_digits
      else positive_double_to_string digits v max_sig_digits)"

definition MAX_SIGNIFICANT_DIGITS :: int where
  "MAX_SIGNIFICANT_DIGITS = 7"

subsection \<open>String escaper\<close>

definition BSG_KSJSONCODEC_WorkBufferSize :: nat where
  "BSG_KSJSONCODEC_WorkBufferSize = 512"

text \<open>
  The work buffer and the write position \<^verbatim>\<open>dst\<close>, as an index into it. \<^verbatim>\<open>*dst++ = c\<close>
  is \<open>put c\<close>: a write at an index outside the buffer is the fault \<open>None\<close>.
\<close>

type_synonym work = "string \<times> nat"

definition put :: "char \<Rightarrow> work \<Rightarrow> work option" where
  "put c w =
     (case w of (workBuffer, dst) \<Rightarrow>
        if dst < length workBuffer then Some (workBuffer[dst := c], dst + 1) else None)"

fun puts :: "string \<Rightarrow> work \<Rightarrow> work option" where
  "puts [] w = Some w"
| "puts (c # cs) w = (case put c w of None \<Rightarrow> None | Some w' \<Rightarrow> puts cs w')"

text \<open>The first loop of \<^verbatim>\<open>bsg_ksjsoncodec_i_appendEscapedString\<close> (lines 295-299).\<close>

fun simple_case :: "string \<Rightarrow> work \<Rightarrow> (string \<times> work) option" where
  "simple_case [] w = Some ([], w)"
| "simple_case (c # src) w =
     (if c \<noteq> CHR 0x5C \<and> c \<noteq> CHR 0x22 \<and> (of_char c :: nat) \<ge> 32 then
        (case put c w of None \<Rightarrow> None | Some w' \<Rightarrow> simple_case src w')
      else Some (c # src, w))"

text \<open>The \<^verbatim>\<open>switch\<close> of the second loop (lines 316-361).\<close>

definition escape_switch :: "char \<Rightarrow> work \<Rightarrow> work option" where
  "escape_switch c w =
     (if c = CHR 0x5C \<or> c = CHR 0x22 then puts [CHR 0x5C, c] w
      else if c = CHR 0x08 then puts [CHR 0x5C, CHR ''b''] w
      else if c = CHR 0x0C then puts [CHR 0x5C, CHR ''f''] w
      else if c = CHR 0x0A then puts [CHR 0x5C, CHR ''n''] w
      else if c = CHR 0x0D then puts [CHR 0x5C, CHR ''r''] w
      else if c = CHR 0x09 then puts [CHR 0x5C, CHR ''t''] w
      else if (of_char c :: nat) < 32 then
        (let last = (of_char c :: nat) mod 16;
             first = (of_char c - last) div 16
         in puts [CHR 0x5C, CHR ''u'', CHR ''0'', CHR ''0'',
                  bsg_g_hexNybbles ! first, bsg_g_hexNybbles ! last] w)
      else puts [c] w)"

text \<open>
  The second loop (lines 303-362) and the final \<^verbatim>\<open>addJSONData\<close> (lines 363-364): before
  each byte, when \<^verbatim>\<open>dst + 6\<close> is beyond the end of the buffer, what the buffer holds goes
  to the sink and \<^verbatim>\<open>dst\<close> returns to the start.
\<close>

fun complicated_case ::
  "'u BSG_KSJSONEncodeContext \<Rightarrow> string \<Rightarrow> work \<Rightarrow> 'u result" where
  "complicated_case ctx [] (workBuffer, dst) =
     Some (call_addJSONData ctx (take dst workBuffer))"
| "complicated_case ctx (c # src) (workBuffer, dst) =
     (if dst + 6 > BSG_KSJSONCODEC_WorkBufferSize then
        (case call_addJSONData ctx (take dst workBuffer) of
           (res, ctx') \<Rightarrow>
             if res \<noteq> BSG_KSJSON_OK then Some (res, ctx')
             else (case escape_switch c (workBuffer, 0) of
                     None \<Rightarrow> None
                   | Some w' \<Rightarrow> complicated_case ctx' src w'))
      else (case escape_switch c (workBuffer, dst) of
              None \<Rightarrow> None
            | Some w' \<Rightarrow> complicated_case ctx src w'))"

text \<open>
  \<^verbatim>\<open>bsg_ksjsoncodec_i_appendEscapedString\<close> (lines 285-365). The work buffer is an
  uninitialised local array of \<^verbatim>\<open>BSG_KSJSONCODEC_WorkBufferSize\<close> bytes; only bytes
  written before are ever read from it.
\<close>

definition bsg_ksjsoncodec_i_appendEscapedString ::
  "'u BSG_KSJSONEncodeContext \<Rightarrow> string \<Rightarrow> nat \<Rightarrow> 'u result" where
  "bsg_ksjsoncodec_i_appendEscapedString ctx string len =
     (case simple_case (take len string)
             (replicate BSG_KSJSONCODEC_WorkBufferSize (CHR 0x00), 0) of
        None \<Rightarrow> None
      | Some (src, w) \<Rightarrow> complicated_case ctx src w)"

text \<open>The loop of \<^verbatim>\<open>bsg_ksjsoncodec_i_addEscapedString\<close> (lines 384-393).\<close>

function addEscapedString_loop ::
  "'u BSG_KSJSONEncodeContext \<Rightarrow> string \<Rightarrow> nat \<Rightarrow> nat \<Rightarrow> 'u result" where
  "addEscapedString_loop ctx string len offset =
     (if offset < len then
        (let toAdd = (if len - offset > BSG_KSJSONCODEC_WorkBufferSize
                      then BSG_KSJSONCODEC_WorkBufferSize else len - offset)
         in case bsg_ksjsoncodec_i_appendEscapedString ctx (drop offset string) toAdd of
              None \<Rightarrow> None
            | Some (res, ctx') \<Rightarrow>
                if res \<noteq> BSG_KSJSON_OK then Some (res, ctx')
                else addEscapedString_loop ctx' string len (offset + toAdd))
      else Some (BSG_KSJSON_OK, ctx))"
  by pat_completeness auto
termination
  by (relation "measure (\<lambda>(ctx, string, len, offset). len - offset)")
     (auto simp: BSG_KSJSONCODEC_WorkBufferSize_def)

declare addEscapedString_loop.simps [simp del]

text \<open>\<^verbatim>\<open>bsg_ksjsoncodec_i_addEscapedString\<close> (lines 377-395).\<close>

definition bsg_ksjsoncodec_i_addEscapedString ::
  "'u BSG_KSJSONEncodeContext \<Rightarrow> string \<Rightarrow> nat \<Rightarrow> 'u result" where
  "bsg_ksjsoncodec_i_addEscapedString ctx string len = addEscapedString_loop ctx string len 0"

text \<open>\<^verbatim>\<open>bsg_ksjsoncodec_i_addQuotedEscapedString\<close> (lines 407-419).\<close>

definition bsg_ksjsoncodec_i_addQuotedEscapedString ::
  "'u BSG_KSJSONEncodeContext \<Rightarrow> string \<Rightarrow> nat \<Rightarrow> 'u result" where
  "bsg_ksjsoncodec_i_addQuotedEscapedString ctx string len =
     on_ok (Some (call_addJSONData ctx [CHR 0x22]))
       (\<lambda>ctx. on_ok (bsg_ksjsoncodec_i_addEscapedString ctx string len)
          (\<lambda>ctx. Some (call_addJSONData ctx [CHR 0x22])))"

subsection \<open>Encoder state machine\<close>

text \<open>
  An element of \<^verbatim>\<open>context->isObject\<close>: an index outside the array is the fault \<open>None\<close>.
  The array's size is fixed in \<^verbatim>\<open>BSG_KSJSONCodec.h\<close>; here it is the length of the list.
\<close>

definition isObject_at :: "'u BSG_KSJSONEncodeContext \<Rightarrow> int \<Rightarrow> bool option" where
  "isObject_at ctx i =
     (if 0 \<le> i \<and> i < int (length (isObject ctx)) then Some (isObject ctx ! nat i) else None)"

definition isObject_set ::
  "'u BSG_KSJSONEncodeContext \<Rightarrow> int \<Rightarrow> bool \<Rightarrow> 'u BSG_KSJSONEncodeContext option" where
  "isObject_set ctx i b =
     (if 0 \<le> i \<and> i < int (length (isObject ctx))
      then Some (ctx\<lparr>isObject := (isObject ctx)[nat i := b]\<rparr>) else None)"

text \<open>
  The indentation loop of \<^verbatim>\<open>bsg_ksjsonbeginElement\<close> (lines 440-445) and of
  \<^verbatim>\<open>bsg_ksjsonendContainer\<close> (lines 682-687), from \<^verbatim>\<open>i\<close> on.
\<close>

function indent_loop :: "int \<Rightarrow> 'u BSG_KSJSONEncodeContext \<Rightarrow> 'u result" where
  "indent_loop i ctx =
     (if i < containerLevel ctx then
        (case call_addJSONData ctx ''    '' of
           (res, ctx') \<Rightarrow>
             if res \<noteq> BSG_KSJSON_OK then Some (res, ctx')
             else indent_loop (i + 1) ctx')
      else Some (BSG_KSJSON_OK, ctx))"
  by pat_completeness auto
termination
  by (relation "measure (\<lambda>(i, ctx). nat (containerLevel ctx - i))")
     (auto simp: call_addJSONData_def split: prod.splits)

declare indent_loop.simps [simp del]

text \<open>\<^verbatim>\<open>bsg_ksjsonbeginElement\<close> (lines 421-472).\<close>

definition bsg_ksjsonbeginElement ::
  "'u BSG_KSJSONEncodeContext \<Rightarrow> string option \<Rightarrow> 'u result" where
  "bsg_ksjsonbeginElement ctx name =
     on_ok (if containerFirstEntry ctx
            then Some (BSG_KSJSON_OK, ctx\<lparr>containerFirstEntry := False\<rparr>)
            else Some (call_addJSONData ctx '',''))
       (\<lambda>ctx. on_ok (if prettyPrint ctx \<and> containerLevel ctx > 0
                     then on_ok (Some (call_addJSONData ctx [CHR 0x0A])) (indent_loop 0)
                     else Some (BSG_KSJSON_OK, ctx))
          (\<lambda>ctx. case isObject_at ctx (containerLevel ctx) of
                   None \<Rightarrow> None
                 | Some False \<Rightarrow> Some (BSG_KSJSON_OK, ctx)
                 | Some True \<Rightarrow>
                     (case name of
                        None \<Rightarrow> Some (BSG_KSJSON_ERROR_INVALID_DATA, ctx)
                      | Some n \<Rightarrow>
                          on_ok (bsg_ksjsoncodec_i_addQuotedEscapedString ctx n (strlen n))
                            (\<lambda>ctx. if prettyPrint ctx
                                   then Some (call_addJSONData ctx '': '')
                                   else Some (call_addJSONData ctx '':'')))))"

text \<open>\<^verbatim>\<open>bsg_ksjsonaddRawJSONData\<close> (lines 474-477).\<close>

definition bsg_ksjsonaddRawJSONData ::
  "'u BSG_KSJSONEncodeContext \<Rightarrow> string \<Rightarrow> nat \<Rightarrow> 'u result" where
  "bsg_ksjsonaddRawJSONData ctx bytes len = Some (call_addJSONData ctx (take len bytes))"

text \<open>\<^verbatim>\<open>bsg_ksjsonaddBooleanElement\<close> (lines 479-488).\<close>

definition bsg_ksjsonaddBooleanElement ::
  "'u BSG_KSJSONEncodeContext \<Rightarrow> string option \<Rightarrow> bool \<Rightarrow> 'u result" where
  "bsg_ksjsonaddBooleanElement ctx name v =
     on_ok (bsg_ksjsonbeginElement ctx name)
       (\<lambda>ctx. if v then Some (call_addJSONData ctx ''true'')
              else Some (call_addJSONData ctx ''false''))"

text \<open>\<^verbatim>\<open>bsg_ksjsonaddFloatingPointElement\<close> (lines 490-497).\<close>

definition bsg_ksjsonaddFloatingPointElement ::
  "(double \<Rightarrow> int \<Rightarrow> string) \<Rightarrow> 'u BSG_KSJSONEncodeContext \<Rightarrow> string option \<Rightarrow> double
     \<Rightarrow> 'u result" where
  "bsg_ksjsonaddFloatingPointElement digits ctx name v =
     on_ok (bsg_ksjsonbeginElement ctx name)
       (\<lambda>ctx. let buff = double_to_string digits v MAX_SIGNIFICANT_DIGITS
              in Some (call_addJSONData ctx (take (strlen buff) buff)))"

text \<open>\<^verbatim>\<open>bsg_ksjsonaddIntegerElement\<close> (lines 499-506).\<close>

definition bsg_ksjsonaddIntegerElement ::
  "'u BSG_KSJSONEncodeContext \<Rightarrow> string option \<Rightarrow> 64 word \<Rightarrow> 'u result" where
  "bsg_ksjsonaddIntegerElement ctx name v =
     on_ok (bsg_ksjsonbeginElement ctx name)
       (\<lambda>ctx. case int64_to_string v of
                None \<Rightarrow> None
              | Some buff \<Rightarrow> Some (call_addJSONData ctx (take (strlen buff) buff)))"

text \<open>\<^verbatim>\<open>bsg_ksjsonaddUIntegerElement\<close> (lines 508-516).\<close>

definition bsg_ksjsonaddUIntegerElement ::
  "'u BSG_KSJSONEncodeContext \<Rightarrow> string option \<Rightarrow> 64 word \<Rightarrow> 'u result" where
  "bsg_ksjsonaddUIntegerElement ctx name v =
     on_ok (bsg_ksjsonbeginElement ctx name)
       (\<lambda>ctx. let buff = uint64_to_string v
              in Some (call_addJSONData ctx (take (strlen buff) buff)))"

text \<open>\<^verbatim>\<open>bsg_ksjsonaddNullElement\<close> (lines 564-569).\<close>

definition bsg_ksjsonaddNullElement ::
  "'u BSG_KSJSONEncodeContext \<Rightarrow> string option \<Rightarrow> 'u result" where
  "bsg_ksjsonaddNullElement ctx name =
     on_ok (bsg_ksjsonbeginElement ctx name) (\<lambda>ctx. Some (call_addJSONData ctx ''null''))"

text \<open>
  The whitespace loop of \<^verbatim>\<open>bsg_ksjsonaddJSONElement\<close> (lines 525-530): the index of the
  first byte, from \<^verbatim>\<open>idx\<close> on, that is not a space, CR, LF, tab or form feed, or \<^verbatim>\<open>length\<close>.
\<close>

function skip_whitespace :: "string \<Rightarrow> nat \<Rightarrow> nat \<Rightarrow> nat" where
  "skip_whitespace element len idx =
     (if idx < len \<and> (element ! idx = CHR '' '' \<or> element ! idx = CHR 0x0D \<or>
                       element ! idx = CHR 0x0A \<or> element ! idx = CHR 0x09 \<or>
                       element ! idx = CHR 0x0C)
      then skip_whitespace element len (idx + 1) else idx)"
  by pat_completeness auto
termination
  by (relation "measure (\<lambda>(element, len, idx). len - idx)") auto

declare skip_whitespace.simps [simp del]

text \<open>\<^verbatim>\<open>bsg_ksjsonaddJSONElement\<close> (lines 518-562).\<close>

definition bsg_ksjsonaddJSONElement ::
  "'u BSG_KSJSONEncodeContext \<Rightarrow> string option \<Rightarrow> string option \<Rightarrow> nat \<Rightarrow> 'u result" where
  "bsg_ksjsonaddJSONElement ctx name element len =
     (case element of
        None \<Rightarrow> bsg_ksjsonaddNullElement ctx name
      | Some e \<Rightarrow>
          (let idx = skip_whitespace e len 0 in
           if idx \<ge> len then Some (BSG_KSJSON_ERROR_INVALID_DATA, ctx)
           else if e ! idx \<in> set ''[{ftn-0123456789'' \<or> e ! idx = CHR 0x22 then
             on_ok (bsg_ksjsonbeginElement ctx name)
               (\<lambda>ctx. Some (call_addJSONData ctx (take len e)))
           else Some (BSG_KSJSON_ERROR_INVALID_DATA, ctx)))"

text \<open>
  \<^verbatim>\<open>bsg_ksjsonaddStringElement\<close> (lines 571-583). \<^verbatim>\<open>BSG_KSJSON_SIZE_AUTOMATIC\<close> is a
  constant of \<^verbatim>\<open>BSG_KSJSONCodec.h\<close>: the parameter \<open>size_automatic\<close>.
\<close>

definition bsg_ksjsonaddStringElement ::
  "nat \<Rightarrow> 'u BSG_KSJSONEncodeContext \<Rightarrow> string option \<Rightarrow> string option \<Rightarrow> nat \<Rightarrow> 'u result" where
  "bsg_ksjsonaddStringElement size_automatic ctx name v len =
     (case v of
        None \<Rightarrow> bsg_ksjsonaddNullElement ctx name
      | Some m \<Rightarrow>
          on_ok (bsg_ksjsonbeginElement ctx name)
            (\<lambda>ctx. bsg_ksjsoncodec_i_addQuotedEscapedString ctx m
                     (if len = size_automatic then strlen m else len)))"

text \<open>\<^verbatim>\<open>bsg_ksjsonbeginStringElement\<close> (lines 585-590).\<close>

definition bsg_ksjsonbeginStringElement ::
  "'u BSG_KSJSONEncodeContext \<Rightarrow> string option \<Rightarrow> 'u result" where
  "bsg_ksjsonbeginStringElement ctx name =
     on_ok (bsg_ksjsonbeginElement ctx name) (\<lambda>ctx. Some (call_addJSONData ctx [CHR 0x22]))"

text \<open>\<^verbatim>\<open>bsg_ksjsonappendStringElement\<close> (lines 592-595), for a non-null \<^verbatim>\<open>value\<close>.\<close>

definition bsg_ksjsonappendStringElement ::
  "'u BSG_KSJSONEncodeContext \<Rightarrow> string \<Rightarrow> nat \<Rightarrow> 'u result" where
  "bsg_ksjsonappendStringElement ctx v len = bsg_ksjsoncodec_i_addEscapedString ctx v len"

text \<open>\<^verbatim>\<open>bsg_ksjsonendStringElement\<close> (lines 597-599).\<close>

definition bsg_ksjsonendStringElement :: "'u BSG_KSJSONEncodeContext \<Rightarrow> 'u result" where
  "bsg_ksjsonendStringElement ctx = Some (call_addJSONData ctx [CHR 0x22])"

text \<open>\<^verbatim>\<open>bsg_ksjsonbeginDataElement\<close> (lines 615-618).\<close>

definition bsg_ksjsonbeginDataElement ::
  "'u BSG_KSJSONEncodeContext \<Rightarrow> string option \<Rightarrow> 'u result" where
  "bsg_ksjsonbeginDataElement ctx name = bsg_ksjsonbeginStringElement ctx name"

text \<open>
  The loop of \<^verbatim>\<open>bsg_ksjsonappendDataElement\<close> (lines 626-634) over the bytes from
  \<^verbatim>\<open>currentByte\<close> to \<^verbatim>\<open>end\<close>. \<^verbatim>\<open>(*currentByte >> 4) & 15\<close> is \<open>of_char c div 16 mod 16\<close>,
  \<^verbatim>\<open>*currentByte & 15\<close> is \<open>of_char c mod 16\<close>.
\<close>

fun appendData_loop :: "'u BSG_KSJSONEncodeContext \<Rightarrow> string \<Rightarrow> 'u result" where
  "appendData_loop ctx [] = Some (BSG_KSJSON_OK, ctx)"
| "appendData_loop ctx (c # bytes) =
     (case call_addJSONData ctx
             [bsg_g_hexNybbles ! ((of_char c :: nat) div 16 mod 16),
              bsg_g_hexNybbles ! ((of_char c :: nat) mod 16)] of
        (res, ctx') \<Rightarrow>
          if res \<noteq> BSG_KSJSON_OK then Some (res, ctx') else appendData_loop ctx' bytes)"

text \<open>
  \<^verbatim>\<open>bsg_ksjsonappendDataElement\<close> (lines 620-636). With a null \<^verbatim>\<open>value\<close> the loop runs
  from address 0 to address \<^verbatim>\<open>length\<close>: it reads nothing when \<^verbatim>\<open>length\<close> is 0 and
  dereferences the null pointer otherwise.
\<close>

definition bsg_ksjsonappendDataElement ::
  "'u BSG_KSJSONEncodeContext \<Rightarrow> string option \<Rightarrow> nat \<Rightarrow> 'u result" where
  "bsg_ksjsonappendDataElement ctx v len =
     (case v of
        None \<Rightarrow> if len = 0 then Some (BSG_KSJSON_OK, ctx) else None
      | Some m \<Rightarrow> appendData_loop ctx (take len m))"

text \<open>\<^verbatim>\<open>bsg_ksjsonendDataElement\<close> (lines 638-640).\<close>

definition bsg_ksjsonendDataElement :: "'u BSG_KSJSONEncodeContext \<Rightarrow> 'u result" where
  "bsg_ksjsonendDataElement ctx = bsg_ksjsonendStringElement ctx"

text \<open>\<^verbatim>\<open>bsg_ksjsonaddDataElement\<close> (lines 601-613).\<close>

definition bsg_ksjsonaddDataElement ::
  "'u BSG_KSJSONEncodeContext \<Rightarrow> string option \<Rightarrow> string option \<Rightarrow> nat \<Rightarrow> 'u result" where
  "bsg_ksjsonaddDataElement ctx name v len =
     on_ok (bsg_ksjsonbeginDataElement ctx name)
       (\<lambda>ctx. on_ok (bsg_ksjsonappendDataElement ctx v len) bsg_ksjsonendDataElement)"

text \<open>
  What \<^verbatim>\<open>bsg_ksjsonbeginArray\<close> and \<^verbatim>\<open>bsg_ksjsonbeginObject\<close> share (lines 644-653 and
  658-667); \<open>obj\<close> is the value stored in \<^verbatim>\<open>isObject\<close>, \<open>bracket\<close> the byte written.
\<close>

definition begin_container ::
  "bool \<Rightarrow> char \<Rightarrow> 'u BSG_KSJSONEncodeContext \<Rightarrow> string option \<Rightarrow> 'u result" where
  "begin_container obj bracket ctx name =
     on_ok (if containerLevel ctx \<ge> 0 then bsg_ksjsonbeginElement ctx name
            else Some (BSG_KSJSON_OK, ctx))
       (\<lambda>ctx. let ctx = ctx\<lparr>containerLevel := containerLevel ctx + 1\<rparr> in
              case isObject_set ctx (containerLevel ctx) obj of
                None \<Rightarrow> None
              | Some ctx \<Rightarrow>
                  Some (call_addJSONData (ctx\<lparr>containerFirstEntry := True\<rparr>) [bracket]))"

text \<open>\<^verbatim>\<open>bsg_ksjsonbeginArray\<close> (lines 642-654).\<close>

definition bsg_ksjsonbeginArray ::
  "'u BSG_KSJSONEncodeContext \<Rightarrow> string option \<Rightarrow> 'u result" where
  "bsg_ksjsonbeginArray ctx name = begin_container False (CHR ''['') ctx name"

text \<open>\<^verbatim>\<open>bsg_ksjsonbeginObject\<close> (lines 656-668).\<close>

definition bsg_ksjsonbeginObject ::
  "'u BSG_KSJSONEncodeContext \<Rightarrow> string option \<Rightarrow> 'u result" where
  "bsg_ksjsonbeginObject ctx name = begin_container True (CHR ''{'') ctx name"

text \<open>\<^verbatim>\<open>bsg_ksjsonendContainer\<close> (lines 670-691).\<close>

definition bsg_ksjsonendContainer :: "'u BSG_KSJSONEncodeContext \<Rightarrow> 'u result" where
  "bsg_ksjsonendContainer ctx =
     (if containerLevel ctx \<le> 0 then Some (BSG_KSJSON_OK, ctx)
      else case isObject_at ctx (containerLevel ctx) of
             None \<Rightarrow> None
           | Some obj \<Rightarrow>
               (let ctx = ctx\<lparr>containerLevel := containerLevel ctx - 1\<rparr> in
                on_ok (if prettyPrint ctx \<and> \<not> containerFirstEntry ctx
                       then on_ok (Some (call_addJSONData ctx [CHR 0x0A])) (indent_loop 0)
                       else Some (BSG_KSJSON_OK, ctx))
                  (\<lambda>ctx. Some (call_addJSONData (ctx\<lparr>containerFirstEntry := False\<rparr>)
                                 (if obj then ''}'' else '']'')))))"

text \<open>
  \<^verbatim>\<open>bsg_ksjsonbeginEncode\<close> (lines 693-702). \<^verbatim>\<open>memset\<close> clears the whole context;
  \<open>capacity\<close> is the number of elements of \<^verbatim>\<open>isObject\<close>, fixed in \<^verbatim>\<open>BSG_KSJSONCodec.h\<close>.
\<close>

definition bsg_ksjsonbeginEncode ::
  "nat \<Rightarrow> bool \<Rightarrow> 'u BSG_KSJSONAddDataFunc \<Rightarrow> 'u \<Rightarrow> 'u BSG_KSJSONEncodeContext" where
  "bsg_ksjsonbeginEncode capacity pretty addJSONDataFunc u =
     \<lparr>addJSONData = addJSONDataFunc, userData = u, containerLevel = 0,
      isObject = replicate capacity False, containerFirstEntry = True,
      prettyPrint = pretty\<rparr>"

text \<open>\<^verbatim>\<open>bsg_ksjsonendEncode\<close> (lines 704-713).\<close>

function bsg_ksjsonendEncode :: "'u BSG_KSJSONEncodeContext \<Rightarrow> 'u result" where
  "bsg_ksjsonendEncode ctx =
     (if containerLevel ctx > 0 then
        (case bsg_ksjsonendContainer ctx of
           None \<Rightarrow> None
         | Some (res, ctx') \<Rightarrow>
             if res \<noteq> BSG_KSJSON_OK then Some (res, ctx') else bsg_ksjsonendEncode ctx')
      else Some (BSG_KSJSON_OK, ctx))"
  by pat_completeness auto
termination
proof (relation "measure (\<lambda>ctx. nat (containerLevel ctx))")
  show "wf (measure (\<lambda>ctx :: 'u BSG_KSJSONEncodeContext. nat (containerLevel ctx)))" by simp
next
  fix ctx :: "'u BSG_KSJSONEncodeContext" and x2 x y
  assume pos: "0 < containerLevel ctx"
    and e: "bsg_ksjsonendContainer ctx = Some x2" and xy: "(x, y) = x2"
  have call: "containerLevel c' = containerLevel c"
    if "call_addJSONData c b = (r, c')" for c c' :: "'u BSG_KSJSONEncodeContext" and b r
    using that by (auto simp: call_addJSONData_def split: prod.splits)
  have loop: "containerLevel c' = containerLevel c"
    if "indent_loop i c = Some (r, c')" for c c' :: "'u BSG_KSJSONEncodeContext" and i r
    using that
  proof (induction i c rule: indent_loop.induct)
    case (1 i c)
    obtain r0 c0 where rc: "call_addJSONData c ''    '' = (r0, c0)" by force
    have l0: "containerLevel c0 = containerLevel c" using rc by (rule call)
    show ?case
    proof (cases "i < containerLevel c")
      case False
      with "1.prems" show ?thesis by (simp add: indent_loop.simps[of i c])
    next
      case True
      show ?thesis
      proof (cases "r0 = BSG_KSJSON_OK")
        case False
        with True rc "1.prems" l0 show ?thesis by (simp add: indent_loop.simps[of i c])
      next
        case ok: True
        with True rc "1.prems" have "indent_loop (i + 1) c0 = Some (r, c')"
          by (simp add: indent_loop.simps[of i c])
        with "1.IH"[OF True rc[symmetric]] ok l0 show ?thesis by simp
      qed
    qed
  qed
  from pos e obtain obj where o: "isObject_at ctx (containerLevel ctx) = Some obj"
    by (cases "isObject_at ctx (containerLevel ctx)") (simp_all add: bsg_ksjsonendContainer_def)
  define c1 where "c1 = ctx\<lparr>containerLevel := containerLevel ctx - 1\<rparr>"
  define ws where "ws = (if prettyPrint c1 \<and> \<not> containerFirstEntry c1
                       then on_ok (Some (call_addJSONData c1 [CHR 0x0A])) (indent_loop 0)
                       else Some (BSG_KSJSON_OK, c1))"
  have eq: "bsg_ksjsonendContainer ctx =
     on_ok ws (\<lambda>c. Some (call_addJSONData (c\<lparr>containerFirstEntry := False\<rparr>)
                           (if obj then ''}'' else '']'')))"
    using pos o by (simp add: bsg_ksjsonendContainer_def c1_def ws_def Let_def)
  have l1: "containerLevel c1 = containerLevel ctx - 1" by (simp add: c1_def)
  have ws_level: "containerLevel c2 = containerLevel c1" if w: "ws = Some (r1, c2)" for r1 c2
  proof (cases "prettyPrint c1 \<and> \<not> containerFirstEntry c1")
    case False
    with w show ?thesis by (auto simp: ws_def)
  next
    case True
    obtain r0 c0 where rc: "call_addJSONData c1 [CHR 0x0A] = (r0, c0)" by force
    have l0: "containerLevel c0 = containerLevel c1" using rc by (rule call)
    show ?thesis
    proof (cases "r0 = BSG_KSJSON_OK")
      case False
      with True w rc l0 show ?thesis by (simp add: ws_def on_ok_def)
    next
      case ok: True
      with True w rc have "indent_loop 0 c0 = Some (r1, c2)" by (simp add: ws_def on_ok_def)
      from loop[OF this] l0 show ?thesis by simp
    qed
  qed
  from e xy eq have r: "on_ok ws (\<lambda>c. Some (call_addJSONData (c\<lparr>containerFirstEntry := False\<rparr>)
                           (if obj then ''}'' else '']''))) = Some (x, y)" by simp
  then obtain r1 c2 where w: "ws = Some (r1, c2)"
    by (cases ws) (auto simp: on_ok_def)
  have "containerLevel y = containerLevel c2"
  proof (cases "r1 = BSG_KSJSON_OK")
    case False
    with r w show ?thesis by (simp add: on_ok_def)
  next
    case True
    with r w have "call_addJSONData (c2\<lparr>containerFirstEntry := False\<rparr>)
                           (if obj then ''}'' else '']'') = (x, y)" by (simp add: on_ok_def)
    from call[OF this] show ?thesis by simp
  qed
  with ws_level[OF w] l1 pos
  show "(y, ctx) \<in> measure (\<lambda>ctx. nat (containerLevel ctx))" by simp
qed

declare bsg_ksjsonendEncode.simps [simp del]

section \<open>Reference functions\<close>

text \<open>
  The functions of this section are not translations of code: they say what the code is
  compared with (the text a call should produce, a sink that keeps what it receives).
\<close>

subsection \<open>A sink that keeps what it receives\<close>

text \<open>\<open>collect\<close> accepts every run of bytes and appends it to \<^verbatim>\<open>userData\<close>.\<close>

definition collect :: "string BSG_KSJSONAddDataFunc" where
  "collect bytes u = (BSG_KSJSON_OK, u @ bytes)"

text \<open>\<open>accept_only\<close> accepts as many calls as its counter says and refuses every later one.\<close>

definition accept_only :: "(nat \<times> string) BSG_KSJSONAddDataFunc" where
  "accept_only bytes u =
     (case u of (n, out) \<Rightarrow>
        if n = 0 then (BSG_KSJSON_ERROR_CANNOT_ADD_DATA, (n, out))
        else (BSG_KSJSON_OK, (n - 1, out @ bytes)))"

subsection \<open>Decimal text\<close>

definition digit_char :: "nat \<Rightarrow> char" where
  "digit_char d = char_of (d + 48)"

text \<open>The decimal digits of a natural number, most significant first, no leading zero.\<close>

fun decimal :: "nat \<Rightarrow> string" where
  "decimal n = (if n < 10 then [digit_char n] else decimal (n div 10) @ [digit_char (n mod 10)])"

declare decimal.simps [simp del]

definition decimal_int :: "int \<Rightarrow> string" where
  "decimal_int i = (if i < 0 then CHR ''-'' # decimal (nat (- i)) else decimal (nat i))"

text \<open>Parsing decimal text back: digits left to right, an optional leading minus sign.\<close>

definition digit_value :: "char \<Rightarrow> nat" where
  "digit_value c = of_char c - 48"

definition parse_decimal :: "string \<Rightarrow> nat" where
  "parse_decimal s = foldl (\<lambda>acc c. acc * 10 + digit_value c) 0 s"

definition parse_integer :: "string \<Rightarrow> int" where
  "parse_integer s =
     (case s of
        [] \<Rightarrow> 0
      | c # cs \<Rightarrow> if c = CHR ''-'' then - int (parse_decimal cs) else int (parse_decimal s))"

subsection \<open>Escaped text\<close>

text \<open>
  The escape of one byte, as the specification words it: backslash and double quote get a
  backslash in front; backspace, form feed, newline, carriage return and tab become
  \<^verbatim>\<open>\b \f \n \r \t\<close>; any other byte below 0x20 becomes \<^verbatim>\<open>\u00XX\<close> with upper-case hex
  digits; every other byte stays.
\<close>

definition json_escape_byte :: "char \<Rightarrow> string" where
  "json_escape_byte c =
     (if c = CHR 0x5C \<or> c = CHR 0x22 then [CHR 0x5C, c]
      else if c = CHR 0x08 then [CHR 0x5C, CHR ''b'']
      else if c = CHR 0x0C then [CHR 0x5C, CHR ''f'']
      else if c = CHR 0x0A then [CHR 0x5C, CHR ''n'']
      else if c = CHR 0x0D then [CHR 0x5C, CHR ''r'']
      else if c = CHR 0x09 then [CHR 0x5C, CHR ''t'']
      else if (of_char c :: nat) < 32 then
        [CHR 0x5C, CHR ''u'', CHR ''0'', CHR ''0'',
         ''0123456789ABCDEF'' ! (of_char c div 16), ''0123456789ABCDEF'' ! (of_char c mod 16)]
      else [c])"

text \<open>A byte that needs no escape.\<close>

definition plain :: "char \<Rightarrow> bool" where
  "plain c = (c \<noteq> CHR 0x5C \<and> c \<noteq> CHR 0x22 \<and> (of_char c :: nat) \<ge> 32)"

text \<open>Two upper-case hex digits for one byte of a data element.\<close>

definition hex_byte :: "char \<Rightarrow> string" where
  "hex_byte c = [bsg_g_hexNybbles ! ((of_char c :: nat) div 16 mod 16),
                 bsg_g_hexNybbles ! ((of_char c :: nat) mod 16)]"

subsection \<open>Structural text\<close>

text \<open>Four spaces per level.\<close>

definition indent_text :: "int \<Rightarrow> string" where
  "indent_text n = concat (replicate (nat n) ''    '')"

text \<open>
  What precedes an element's value: a comma unless the element is the first of its
  container, a newline and the indentation in pretty mode inside a container, and in an
  object the quoted name and the colon.
\<close>

definition beginElement_text :: "'u BSG_KSJSONEncodeContext \<Rightarrow> string option \<Rightarrow> string" where
  "beginElement_text ctx name =
     (if containerFirstEntry ctx then [] else '','') @
     (if prettyPrint ctx \<and> containerLevel ctx > 0
      then CHR 0x0A # indent_text (containerLevel ctx) else []) @
     (case name of
        Some n \<Rightarrow>
          if isObject ctx ! nat (containerLevel ctx)
          then [CHR 0x22] @ concat (map json_escape_byte (c_string n)) @ [CHR 0x22] @
               (if prettyPrint ctx then '': '' else '':'')
          else []
      | None \<Rightarrow> [])"

text \<open>The context after an element with the given value text has gone to \<open>collect\<close>.\<close>

definition element_written ::
  "string BSG_KSJSONEncodeContext \<Rightarrow> string option \<Rightarrow> string \<Rightarrow> string BSG_KSJSONEncodeContext" where
  "element_written ctx name body =
     ctx\<lparr>containerFirstEntry := False,
         userData := userData ctx @ beginElement_text ctx name @ body\<rparr>"

text \<open>
  An element can be written: the level is an index of \<^verbatim>\<open>isObject\<close>, and inside an object
  the name is not null.
\<close>

definition element_ready :: "'u BSG_KSJSONEncodeContext \<Rightarrow> string option \<Rightarrow> bool" where
  "element_ready ctx name =
     (0 \<le> containerLevel ctx \<and> containerLevel ctx < int (length (isObject ctx)) \<and>
      (if isObject ctx ! nat (containerLevel ctx) then name \<noteq> None else True))"

text \<open>
  The bytes a raw JSON payload may start with, after the whitespace the code skips: space,
  carriage return, newline, tab and form feed.
\<close>

definition json_whitespace :: "char \<Rightarrow> bool" where
  "json_whitespace c = (c \<in> set [CHR '' '', CHR 0x0D, CHR 0x0A, CHR 0x09, CHR 0x0C])"

definition json_token_start :: "char \<Rightarrow> bool" where
  "json_token_start c = (c \<in> set ''[{ftn-0123456789'' \<or> c = CHR 0x22)"

text \<open>
  Closing \<open>n\<close> containers, innermost first, as the specification words \<^verbatim>\<open>endEncode\<close>: one
  \<^verbatim>\<open>endContainer\<close> after the other, and the first status other than OK is returned with
  no further call.
\<close>

fun close_containers :: "nat \<Rightarrow> 'u BSG_KSJSONEncodeContext \<Rightarrow> 'u result" where
  "close_containers 0 ctx = Some (BSG_KSJSON_OK, ctx)"
| "close_containers (Suc n) ctx = on_ok (bsg_ksjsonendContainer ctx) (close_containers n)"

text \<open>
  The text that closes the containers at levels \<open>n\<close>, \<open>n - 1\<close>, ..., 1: for each its bracket,
  and in pretty mode a newline and the parent's indentation before it unless the
  container is empty (only the innermost one can be: \<open>first\<close>).
\<close>

fun closing_text :: "bool \<Rightarrow> bool \<Rightarrow> bool list \<Rightarrow> nat \<Rightarrow> string" where
  "closing_text pretty first objs 0 = []"
| "closing_text pretty first objs (Suc n) =
     (if pretty \<and> \<not> first then CHR 0x0A # indent_text (int n) else []) @
     [if objs ! Suc n then CHR ''}'' else CHR '']''] @
     closing_text pretty False objs n"

subsection \<open>Postconditions of results\<close>

text \<open>
  \<open>ensures r P\<close>: when the call returns (no fault), its status and context satisfy \<open>P\<close>.
\<close>

definition ensures ::
  "'u result \<Rightarrow> (status \<Rightarrow> 'u BSG_KSJSONEncodeContext \<Rightarrow> bool) \<Rightarrow> bool" where
  "ensures r P = (case r of None \<Rightarrow> True | Some (res, ctx) \<Rightarrow> P res ctx)"

text \<open>\<open>returns r P\<close>: the call returns, and its status and context satisfy \<open>P\<close>.\<close>

definition returns ::
  "'u result \<Rightarrow> (status \<Rightarrow> 'u BSG_KSJSONEncodeContext \<Rightarrow> bool) \<Rightarrow> bool" where
  "returns r P = (case r of None \<Rightarrow> False | Some (res, ctx) \<Rightarrow> P res ctx)"

text \<open>
  \<open>same_frame ctx ctx'\<close>: the two contexts differ at most in what the sink holds.
\<close>

definition same_frame ::
  "'u BSG_KSJSONEncodeContext \<Rightarrow> 'u BSG_KSJSONEncodeContext \<Rightarrow> bool" where
  "same_frame ctx ctx' = (\<exists>u. ctx' = ctx\<lparr>userData := u\<rparr>)"

section \<open>Lemmas\<close>

subsection \<open>Postconditions of results\<close>

lemma ensures_None [simp]: "ensures None P"
  by (simp add: ensures_def)

lemma ensures_Some [simp]: "ensures (Some (res, ctx)) P = P res ctx"
  by (simp add: ensures_def)

lemma ensuresD: "ensures r P \<Longrightarrow> r = Some (res, ctx) \<Longrightarrow> P res ctx"
  by (simp add: ensures_def)

lemma ensures_weaken:
  assumes "ensures r Q" and "\<And>res ctx. Q res ctx \<Longrightarrow> P res ctx"
  shows "ensures r P"
proof (cases r)
  case None
  then show ?thesis by simp
next
  case (Some p)
  obtain res ctx where "p = (res, ctx)" by (cases p)
  with Some assms show ?thesis by simp
qed

lemma ensures_on_ok:
  assumes r: "ensures r Q"
    and fail: "\<And>res ctx. Q res ctx \<Longrightarrow> res \<noteq> BSG_KSJSON_OK \<Longrightarrow> P res ctx"
    and k: "\<And>ctx. Q BSG_KSJSON_OK ctx \<Longrightarrow> ensures (k ctx) P"
  shows "ensures (on_ok r k) P"
proof (cases r)
  case None
  then show ?thesis by (simp add: on_ok_def)
next
  case (Some p)
  obtain res ctx where p: "p = (res, ctx)" by (cases p)
  with Some r have q: "Q res ctx" by simp
  show ?thesis
  proof (cases "res = BSG_KSJSON_OK")
    case True
    with k q Some p show ?thesis by (simp add: on_ok_def)
  next
    case False
    with fail[OF q] Some p show ?thesis by (simp add: on_ok_def)
  qed
qed

text \<open>The sink sees only \<^verbatim>\<open>userData\<close>: a call leaves every other field as it is.\<close>

lemma call_addJSONData_fields:
  assumes "call_addJSONData ctx bytes = (res, ctx')"
  shows "containerLevel ctx' = containerLevel ctx"
    and "isObject ctx' = isObject ctx"
    and "containerFirstEntry ctx' = containerFirstEntry ctx"
    and "prettyPrint ctx' = prettyPrint ctx"
    and "addJSONData ctx' = addJSONData ctx"
  using assms by (auto simp: call_addJSONData_def split: prod.splits)

lemma ensures_call:
  assumes "\<And>res u. P res (ctx\<lparr>userData := u\<rparr>)"
  shows "ensures (Some (call_addJSONData ctx bytes)) P"
  using assms by (simp add: call_addJSONData_def split: prod.splits)

lemma same_frame_refl [simp]: "same_frame ctx ctx"
proof -
  have "ctx = ctx\<lparr>userData := userData ctx\<rparr>" by simp
  then show ?thesis unfolding same_frame_def by blast
qed

lemma same_frame_trans: "same_frame a b \<Longrightarrow> same_frame b c \<Longrightarrow> same_frame a c"
  by (auto simp: same_frame_def)

lemma same_frame_fields:
  assumes "same_frame ctx ctx'"
  shows "containerLevel ctx' = containerLevel ctx"
    and "isObject ctx' = isObject ctx"
    and "containerFirstEntry ctx' = containerFirstEntry ctx"
    and "prettyPrint ctx' = prettyPrint ctx"
    and "addJSONData ctx' = addJSONData ctx"
  using assms by (auto simp: same_frame_def)

lemma same_frame_call: "call_addJSONData ctx bytes = (res, ctx') \<Longrightarrow> same_frame ctx ctx'"
  by (auto simp: call_addJSONData_def same_frame_def split: prod.splits)

lemma ensures_call_frame: "ensures (Some (call_addJSONData ctx bytes)) (\<lambda>res. same_frame ctx)"
  by (cases "call_addJSONData ctx bytes") (simp add: same_frame_call)

lemma indent_loop_frame: "ensures (indent_loop i ctx) (\<lambda>res. same_frame ctx)"
proof (induction i ctx rule: indent_loop.induct)
  case (1 i ctx)
  obtain r c where rc: "call_addJSONData ctx ''    '' = (r, c)" by force
  have f: "same_frame ctx c" using rc by (rule same_frame_call)
  show ?case
  proof (cases "i < containerLevel ctx \<and> r = BSG_KSJSON_OK")
    case True
    then have eq: "indent_loop i ctx = indent_loop (i + 1) c"
      using rc by (simp add: indent_loop.simps[of i ctx])
    have "ensures (indent_loop (i + 1) c) (\<lambda>res. same_frame c)"
      using "1.IH"[OF _ rc[symmetric]] True by simp
    then show ?thesis unfolding eq
      by (rule ensures_weaken) (rule same_frame_trans[OF f])
  next
    case False
    then show ?thesis using rc f by (auto simp: indent_loop.simps[of i ctx])
  qed
qed

lemma endContainer_pops:
  fixes ctx :: "'u BSG_KSJSONEncodeContext"
  assumes pos: "containerLevel ctx > 0"
  shows "ensures (bsg_ksjsonendContainer ctx)
           (\<lambda>res ctx'. \<not> containerFirstEntry ctx' \<and> containerLevel ctx' = containerLevel ctx - 1)"
proof (cases "isObject_at ctx (containerLevel ctx)")
  case None
  with pos show ?thesis by (simp add: bsg_ksjsonendContainer_def)
next
  case (Some obj)
  define c1 where "c1 = ctx\<lparr>containerLevel := containerLevel ctx - 1\<rparr>"
  define ws where "ws = (if prettyPrint c1 \<and> \<not> containerFirstEntry c1
                       then on_ok (Some (call_addJSONData c1 [CHR 0x0A])) (indent_loop 0)
                       else Some (BSG_KSJSON_OK, c1))"
  define Q where "Q = (\<lambda>res c. same_frame c1 c \<and> (res \<noteq> BSG_KSJSON_OK \<longrightarrow> \<not> containerFirstEntry c1))"
  have ws: "ensures ws Q"
  proof (cases "prettyPrint c1 \<and> \<not> containerFirstEntry c1")
    case False
    then show ?thesis by (auto simp: ws_def Q_def)
  next
    case True
    have "ensures (on_ok (Some (call_addJSONData c1 [CHR 0x0A])) (indent_loop 0))
            (\<lambda>res. same_frame c1)"
      by (auto intro!: ensures_on_ok[where Q = "\<lambda>res. same_frame c1"] ensures_call_frame
          ensures_weaken[OF indent_loop_frame] elim: same_frame_trans)
    then have "ensures (on_ok (Some (call_addJSONData c1 [CHR 0x0A])) (indent_loop 0)) Q"
      by (rule ensures_weaken) (use True in \<open>simp add: Q_def\<close>)
    with True show ?thesis by (simp add: ws_def)
  qed
  have eq: "bsg_ksjsonendContainer ctx =
     on_ok ws (\<lambda>ctx. Some (call_addJSONData (ctx\<lparr>containerFirstEntry := False\<rparr>)
                             (if obj then ''}'' else '']'')))"
    using pos Some by (simp add: bsg_ksjsonendContainer_def c1_def ws_def Let_def)
  show ?thesis unfolding eq
  proof (rule ensures_on_ok[OF ws])
    fix res and c :: "'u BSG_KSJSONEncodeContext"
    assume "Q res c" "res \<noteq> BSG_KSJSON_OK"
    then have f: "same_frame c1 c" and n: "\<not> containerFirstEntry c1" by (simp_all add: Q_def)
    from same_frame_fields[OF f] n
    show "\<not> containerFirstEntry c \<and> containerLevel c = containerLevel ctx - 1"
      by (simp add: c1_def)
  next
    fix c :: "'u BSG_KSJSONEncodeContext"
    assume "Q BSG_KSJSON_OK c"
    then have f: "same_frame c1 c" by (simp add: Q_def)
    have "containerLevel c = containerLevel ctx - 1"
      using same_frame_fields(1)[OF f] by (simp add: c1_def)
    then show "ensures (Some (call_addJSONData (c\<lparr>containerFirstEntry := False\<rparr>)
                              (if obj then ''}'' else '']'')))
                 (\<lambda>res ctx'. \<not> containerFirstEntry ctx' \<and>
                    containerLevel ctx' = containerLevel ctx - 1)"
      by (intro ensures_call) simp
  qed
qed

lemma endContainer_level:
  fixes ctx :: "'u BSG_KSJSONEncodeContext"
  assumes pos: "containerLevel ctx > 0"
  shows "ensures (bsg_ksjsonendContainer ctx)
           (\<lambda>res ctx'. containerLevel ctx' = containerLevel ctx - 1)"
  by (rule ensures_weaken[OF endContainer_pops[OF pos]]) simp

subsection \<open>The escaper\<close>

text \<open>
  Writes into the work buffer succeed while there is room, and what the buffer holds up
  to \<^verbatim>\<open>dst\<close> grows by the bytes written. With the sink \<open>collect\<close> the two loops and the
  slicing wrapper then deliver the escape of every byte, in order.
\<close>

lemma put_Some:
  "dst < length wb \<Longrightarrow> put c (wb, dst) = Some (wb[dst := c], Suc dst)"
  by (simp add: put_def)

lemma take_Suc_update: "dst < length wb \<Longrightarrow> take (Suc dst) (wb[dst := c]) = take dst wb @ [c]"
  by (simp add: take_Suc_conv_app_nth)

lemma puts_Some:
  "dst + length cs \<le> length wb \<Longrightarrow>
   \<exists>wb'. puts cs (wb, dst) = Some (wb', dst + length cs) \<and> length wb' = length wb \<and>
         take (dst + length cs) wb' = take dst wb @ cs"
proof (induction cs arbitrary: wb dst)
  case Nil
  then show ?case by simp
next
  case (Cons c cs)
  then have lt: "dst < length wb" by simp
  from Cons.prems have "Suc dst + length cs \<le> length (wb[dst := c])" by simp
  from Cons.IH[OF this] obtain wb' where
    "puts cs (wb[dst := c], Suc dst) = Some (wb', Suc dst + length cs)"
    "length wb' = length wb" "take (Suc dst + length cs) wb' = take (Suc dst) (wb[dst := c]) @ cs"
    by auto
  then show ?case using lt by (simp add: put_Some take_Suc_update)
qed

lemma escape_switch_puts: "escape_switch c w = puts (json_escape_byte c) w"
proof -
  have "(of_char c - (of_char c :: nat) mod 16) div 16 = of_char c div 16"
    by (metis minus_mod_eq_mult_div nonzero_mult_div_cancel_left zero_neq_numeral)
  then show ?thesis
    unfolding escape_switch_def json_escape_byte_def Let_def bsg_g_hexNybbles_def
    by simp
qed

lemma length_json_escape_byte: "length (json_escape_byte c) \<le> 6"
  by (simp add: json_escape_byte_def)

lemma json_escape_byte_plain: "plain c \<Longrightarrow> json_escape_byte c = [c]"
  by (auto simp: plain_def json_escape_byte_def)

lemma simple_case_Some:
  "dst + length s \<le> length wb \<Longrightarrow>
   \<exists>wb'. simple_case s (wb, dst) =
           Some (dropWhile plain s, (wb', dst + length (takeWhile plain s))) \<and>
         length wb' = length wb \<and>
         take (dst + length (takeWhile plain s)) wb' = take dst wb @ takeWhile plain s"
proof (induction s arbitrary: wb dst)
  case Nil
  then show ?case by simp
next
  case (Cons c s)
  show ?case
  proof (cases "plain c")
    case False
    then show ?thesis by (auto simp: plain_def)
  next
    case True
    from Cons.prems have lt: "dst < length wb" by simp
    from Cons.prems have "Suc dst + length s \<le> length (wb[dst := c])" by simp
    from Cons.IH[OF this] obtain wb' where
      "simple_case s (wb[dst := c], Suc dst) =
         Some (dropWhile plain s, (wb', Suc dst + length (takeWhile plain s)))"
      "length wb' = length wb"
      "take (Suc dst + length (takeWhile plain s)) wb' =
         take (Suc dst) (wb[dst := c]) @ takeWhile plain s"
      by auto
    with True lt show ?thesis
      by (simp add: put_Some take_Suc_update) (simp add: plain_def)
  qed
qed

lemma call_collect:
  "addJSONData ctx = collect \<Longrightarrow>
   call_addJSONData ctx bytes = (BSG_KSJSON_OK, ctx\<lparr>userData := userData ctx @ bytes\<rparr>)"
  by (simp add: call_addJSONData_def collect_def)

lemma complicated_case_collect:
  "addJSONData ctx = collect \<Longrightarrow> length wb = BSG_KSJSONCODEC_WorkBufferSize \<Longrightarrow>
   dst \<le> BSG_KSJSONCODEC_WorkBufferSize \<Longrightarrow>
   complicated_case ctx s (wb, dst) =
     Some (BSG_KSJSON_OK,
           ctx\<lparr>userData := userData ctx @ take dst wb @ concat (map json_escape_byte s)\<rparr>)"
proof (induction s arbitrary: ctx wb dst)
  case Nil
  then show ?case by (simp add: call_collect)
next
  case (Cons c s)
  let ?e = "json_escape_byte c"
  show ?case
  proof (cases "dst + 6 > BSG_KSJSONCODEC_WorkBufferSize")
    case True
    let ?ctx = "ctx\<lparr>userData := userData ctx @ take dst wb\<rparr>"
    have "0 + length ?e \<le> length wb"
      using length_json_escape_byte[of c] Cons.prems
      by (simp add: BSG_KSJSONCODEC_WorkBufferSize_def)
    from puts_Some[OF this] obtain wb' where
      p: "puts ?e (wb, 0) = Some (wb', length ?e)" "length wb' = length wb"
         "take (length ?e) wb' = ?e"
      by auto
    have "length ?e \<le> BSG_KSJSONCODEC_WorkBufferSize"
      using length_json_escape_byte[of c] by (simp add: BSG_KSJSONCODEC_WorkBufferSize_def)
    with Cons.IH[of ?ctx wb' "length ?e"] Cons.prems p
    have "complicated_case ?ctx s (wb', length ?e) =
      Some (BSG_KSJSON_OK, ?ctx\<lparr>userData := userData ?ctx @ ?e @ concat (map json_escape_byte s)\<rparr>)"
      by simp
    with True p Cons.prems show ?thesis
      by (simp add: call_collect escape_switch_puts)
  next
    case False
    then have "dst + length ?e \<le> length wb"
      using length_json_escape_byte[of c] Cons.prems by simp
    from puts_Some[OF this] obtain wb' where
      p: "puts ?e (wb, dst) = Some (wb', dst + length ?e)" "length wb' = length wb"
         "take (dst + length ?e) wb' = take dst wb @ ?e"
      by auto
    have "dst + length ?e \<le> BSG_KSJSONCODEC_WorkBufferSize"
      using False length_json_escape_byte[of c] by simp
    with Cons.IH[of ctx wb' "dst + length ?e"] Cons.prems p
    have "complicated_case ctx s (wb', dst + length ?e) =
      Some (BSG_KSJSON_OK, ctx\<lparr>userData := userData ctx @ (take dst wb @ ?e) @ concat (map json_escape_byte s)\<rparr>)"
      by simp
    with False p show ?thesis
      by (simp add: escape_switch_puts)
  qed
qed

lemma concat_escape_takeWhile_dropWhile:
  "takeWhile plain s @ concat (map json_escape_byte (dropWhile plain s)) =
   concat (map json_escape_byte s)"
  by (induction s) (simp_all add: json_escape_byte_plain)

lemma appendEscapedString_collect:
  assumes sink: "addJSONData ctx = collect" and len: "len \<le> BSG_KSJSONCODEC_WorkBufferSize"
  shows "bsg_ksjsoncodec_i_appendEscapedString ctx string len =
     Some (BSG_KSJSON_OK,
           ctx\<lparr>userData := userData ctx @ concat (map json_escape_byte (take len string))\<rparr>)"
proof -
  let ?wb = "replicate BSG_KSJSONCODEC_WorkBufferSize (CHR 0x00)"
  let ?s = "take len string"
  have "0 + length ?s \<le> length ?wb" using len by simp
  from simple_case_Some[OF this] obtain wb' where
    sc: "simple_case ?s (?wb, 0) = Some (dropWhile plain ?s, (wb', length (takeWhile plain ?s)))"
    and l: "length wb' = BSG_KSJSONCODEC_WorkBufferSize"
    and t: "take (length (takeWhile plain ?s)) wb' = takeWhile plain ?s"
    by auto
  have "length (takeWhile plain ?s) \<le> length ?s" by (rule length_takeWhile_le)
  with len have d: "length (takeWhile plain ?s) \<le> BSG_KSJSONCODEC_WorkBufferSize" by simp
  show ?thesis
    unfolding bsg_ksjsoncodec_i_appendEscapedString_def sc
    by (simp add: complicated_case_collect[OF sink l d] t concat_escape_takeWhile_dropWhile)
qed

lemma addEscapedString_loop_collect:
  "addJSONData ctx = collect \<Longrightarrow>
   addEscapedString_loop ctx string len offset =
     Some (BSG_KSJSON_OK,
           ctx\<lparr>userData := userData ctx @
                  concat (map json_escape_byte (drop offset (take len string)))\<rparr>)"
proof (induction ctx string len offset rule: addEscapedString_loop.induct)
  case (1 ctx string len offset)
  show ?case
  proof (cases "offset < len")
    case False
    then show ?thesis by (simp add: addEscapedString_loop.simps[of ctx string len offset])
  next
    case True
    define toAdd where "toAdd = (if len - offset > BSG_KSJSONCODEC_WorkBufferSize
                      then BSG_KSJSONCODEC_WorkBufferSize else len - offset)"
    have le: "toAdd \<le> BSG_KSJSONCODEC_WorkBufferSize" by (simp add: toAdd_def)
    have le2: "offset + toAdd \<le> len" using True by (auto simp: toAdd_def)
    let ?ctx = "ctx\<lparr>userData := userData ctx @
                  concat (map json_escape_byte (take toAdd (drop offset string)))\<rparr>"
    have a: "bsg_ksjsoncodec_i_appendEscapedString ctx (drop offset string) toAdd =
        Some (BSG_KSJSON_OK, ?ctx)"
      by (rule appendEscapedString_collect[OF "1.prems" le])
    have sink': "addJSONData ?ctx = collect" using "1.prems" by simp
    have ih: "addEscapedString_loop ?ctx string len (offset + toAdd) =
      Some (BSG_KSJSON_OK, ?ctx\<lparr>userData := userData ?ctx @
                  concat (map json_escape_byte (drop (offset + toAdd) (take len string)))\<rparr>)"
      by (rule "1.IH"[OF True toAdd_def a refl _ sink']) simp
    have split: "drop offset (take len string) =
         take toAdd (drop offset string) @ drop (offset + toAdd) (take len string)"
    proof -
      have "take toAdd (drop offset string) = take toAdd (drop offset (take len string))"
        using le2 by (simp add: drop_take min_def)
      moreover have "drop (offset + toAdd) (take len string) =
          drop toAdd (drop offset (take len string))"
        by (simp add: add.commute)
      ultimately show ?thesis by (simp only: append_take_drop_id)
    qed
    show ?thesis
      using True a ih
      by (simp add: addEscapedString_loop.simps[of ctx string len offset] toAdd_def[symmetric]
          split)
  qed
qed

lemma addEscapedString_collect:
  "addJSONData ctx = collect \<Longrightarrow>
   bsg_ksjsoncodec_i_addEscapedString ctx string len =
     Some (BSG_KSJSON_OK,
           ctx\<lparr>userData := userData ctx @ concat (map json_escape_byte (take len string))\<rparr>)"
  by (simp add: bsg_ksjsoncodec_i_addEscapedString_def addEscapedString_loop_collect)



text \<open>
  With any sink: the second loop starts each byte with at least 6 free bytes, the most one
  escape takes, so it never writes outside the buffer; the first loop stays inside when
  the slice is no longer than the buffer.
\<close>

lemma escape_switch_Some:
  assumes "dst + 6 \<le> length wb"
  shows "\<exists>wb' dst'. escape_switch c (wb, dst) = Some (wb', dst') \<and> length wb' = length wb \<and>
           dst' \<le> dst + 6"
proof -
  have "dst + length (json_escape_byte c) \<le> length wb"
    using assms length_json_escape_byte[of c] by simp
  from puts_Some[OF this] show ?thesis
    using length_json_escape_byte[of c] by (auto simp: escape_switch_puts)
qed

lemma complicated_case_returns:
  "length wb = BSG_KSJSONCODEC_WorkBufferSize \<Longrightarrow> dst \<le> BSG_KSJSONCODEC_WorkBufferSize \<Longrightarrow>
   \<exists>r. complicated_case ctx s (wb, dst) = Some r"
proof (induction s arbitrary: ctx wb dst)
  case Nil
  then show ?case by simp
next
  case (Cons c s)
  show ?case
  proof (cases "dst + 6 > BSG_KSJSONCODEC_WorkBufferSize")
    case True
    obtain res ctx' where call: "call_addJSONData ctx (take dst wb) = (res, ctx')" by force
    have "0 + 6 \<le> length wb" using Cons.prems by (simp add: BSG_KSJSONCODEC_WorkBufferSize_def)
    from escape_switch_Some[OF this, of c] obtain wb' dst' where
      e: "escape_switch c (wb, 0) = Some (wb', dst')" "length wb' = length wb" "dst' \<le> 6"
      by auto
    from e Cons.prems have "dst' \<le> BSG_KSJSONCODEC_WorkBufferSize"
      by (simp add: BSG_KSJSONCODEC_WorkBufferSize_def)
    from Cons.IH[OF _ this, of wb' ctx'] e Cons.prems
    obtain r where "complicated_case ctx' s (wb', dst') = Some r" by auto
    with True call e show ?thesis by simp
  next
    case False
    then have "dst + 6 \<le> length wb" using Cons.prems by simp
    from escape_switch_Some[OF this, of c] obtain wb' dst' where
      e: "escape_switch c (wb, dst) = Some (wb', dst')" "length wb' = length wb" "dst' \<le> dst + 6"
      by auto
    from e False have "dst' \<le> BSG_KSJSONCODEC_WorkBufferSize" by simp
    from Cons.IH[OF _ this, of wb' ctx] e Cons.prems
    obtain r where "complicated_case ctx s (wb', dst') = Some r" by auto
    with False e show ?thesis by simp
  qed
qed

lemma appendEscapedString_returns:
  assumes len: "len \<le> BSG_KSJSONCODEC_WorkBufferSize"
  shows "\<exists>r. bsg_ksjsoncodec_i_appendEscapedString ctx string len = Some r"
proof -
  let ?wb = "replicate BSG_KSJSONCODEC_WorkBufferSize (CHR 0x00)"
  let ?s = "take len string"
  have "0 + length ?s \<le> length ?wb" using len by simp
  from simple_case_Some[OF this] obtain wb' where
    sc: "simple_case ?s (?wb, 0) = Some (dropWhile plain ?s, (wb', length (takeWhile plain ?s)))"
    and l: "length wb' = BSG_KSJSONCODEC_WorkBufferSize"
    by auto
  have "length (takeWhile plain ?s) \<le> length ?s" by (rule length_takeWhile_le)
  with len have d: "length (takeWhile plain ?s) \<le> BSG_KSJSONCODEC_WorkBufferSize" by simp
  show ?thesis
    unfolding bsg_ksjsoncodec_i_appendEscapedString_def sc
    using complicated_case_returns[OF l d] by simp
qed

lemma addEscapedString_loop_returns:
  "\<exists>r. addEscapedString_loop ctx string len offset = Some r"
proof (induction ctx string len offset rule: addEscapedString_loop.induct)
  case (1 ctx string len offset)
  show ?case
  proof (cases "offset < len")
    case False
    then show ?thesis by (simp add: addEscapedString_loop.simps[of ctx string len offset])
  next
    case True
    define toAdd where "toAdd = (if len - offset > BSG_KSJSONCODEC_WorkBufferSize
                      then BSG_KSJSONCODEC_WorkBufferSize else len - offset)"
    have le: "toAdd \<le> BSG_KSJSONCODEC_WorkBufferSize" by (simp add: toAdd_def)
    from appendEscapedString_returns[OF le] obtain res ctx' where
      a: "bsg_ksjsoncodec_i_appendEscapedString ctx (drop offset string) toAdd = Some (res, ctx')"
      by fastforce
    show ?thesis
    proof (cases "res = BSG_KSJSON_OK")
      case False
      with True a show ?thesis
        by (simp add: addEscapedString_loop.simps[of ctx string len offset] toAdd_def[symmetric])
    next
      case ok: True
      from "1.IH"[OF True toAdd_def a refl] ok
      obtain r where "addEscapedString_loop ctx' string len (offset + toAdd) = Some r" by auto
      with True a ok show ?thesis
        by (simp add: addEscapedString_loop.simps[of ctx string len offset] toAdd_def[symmetric])
    qed
  qed
qed

text \<open>
  The first loop has no check of its own: on a slice longer than the buffer, of bytes that
  need no escape, it writes past the end.
\<close>

lemma simple_case_overrun:
  "\<forall>c \<in> set s. plain c \<Longrightarrow> dst \<le> length wb \<Longrightarrow> length wb < dst + length s \<Longrightarrow>
   simple_case s (wb, dst) = None"
proof (induction s arbitrary: wb dst)
  case Nil
  then show ?case by simp
next
  case (Cons c s)
  then have p: "plain c" by simp
  show ?case
  proof (cases "dst < length wb")
    case False
    with p show ?thesis by (simp add: put_def plain_def)
  next
    case True
    from Cons.prems have "length (wb[dst := c]) < Suc dst + length s" by simp
    from Cons.IH[OF _ _ this] Cons.prems True
    have "simple_case s (wb[dst := c], Suc dst) = None" by simp
    with True p show ?thesis by (simp add: put_Some) (simp add: plain_def)
  qed
qed

lemma appendEscapedString_unchunked_overrun:
  "bsg_ksjsoncodec_i_appendEscapedString ctx (replicate 513 (CHR ''a'')) 513 = None"
proof -
  have "simple_case (replicate 513 (CHR ''a''))
          (replicate BSG_KSJSONCODEC_WorkBufferSize (CHR 0x00), 0) = None"
    by (rule simple_case_overrun) (simp_all add: plain_def BSG_KSJSONCODEC_WorkBufferSize_def)
  then show ?thesis by (simp add: bsg_ksjsoncodec_i_appendEscapedString_def)
qed

subsection \<open>Structural text with a sink that keeps what it receives\<close>

lemma on_ok_Some_OK [simp]: "on_ok (Some (BSG_KSJSON_OK, ctx)) k = k ctx"
  by (simp add: on_ok_def)

lemma on_ok_Some_fail: "res \<noteq> BSG_KSJSON_OK \<Longrightarrow> on_ok (Some (res, ctx)) k = Some (res, ctx)"
  by (simp add: on_ok_def)

lemma on_ok_None [simp]: "on_ok None k = None"
  by (simp add: on_ok_def)

lemma addQuotedEscapedString_collect:
  "addJSONData ctx = collect \<Longrightarrow>
   bsg_ksjsoncodec_i_addQuotedEscapedString ctx string len =
     Some (BSG_KSJSON_OK,
           ctx\<lparr>userData := userData ctx @ [CHR 0x22] @
                  concat (map json_escape_byte (take len string)) @ [CHR 0x22]\<rparr>)"
  by (simp add: bsg_ksjsoncodec_i_addQuotedEscapedString_def call_collect
      addEscapedString_collect)

lemma indent_loop_collect:
  "addJSONData ctx = collect \<Longrightarrow>
   indent_loop i ctx =
     Some (BSG_KSJSON_OK, ctx\<lparr>userData := userData ctx @ indent_text (containerLevel ctx - i)\<rparr>)"
proof (induction i ctx rule: indent_loop.induct)
  case (1 i ctx)
  show ?case
  proof (cases "i < containerLevel ctx")
    case False
    then show ?thesis by (simp add: indent_loop.simps[of i ctx] indent_text_def)
  next
    case True
    let ?c = "ctx\<lparr>userData := userData ctx @ ''    ''\<rparr>"
    have call: "call_addJSONData ctx ''    '' = (BSG_KSJSON_OK, ?c)"
      using "1.prems" by (rule call_collect)
    have "indent_loop (i + 1) ?c =
       Some (BSG_KSJSON_OK, ?c\<lparr>userData := userData ?c @ indent_text (containerLevel ?c - (i + 1))\<rparr>)"
      by (rule "1.IH"[OF True call[symmetric]]) (use "1.prems" in simp_all)
    moreover have "nat (containerLevel ctx - i) = Suc (nat (containerLevel ctx - (i + 1)))"
      using True by simp
    ultimately show ?thesis
      using True call by (simp add: indent_loop.simps[of i ctx] indent_text_def)
  qed
qed

lemma isObject_at_Some:
  "0 \<le> i \<Longrightarrow> i < int (length (isObject ctx)) \<Longrightarrow> isObject_at ctx i = Some (isObject ctx ! nat i)"
  by (simp add: isObject_at_def)

lemma take_strlen: "take (strlen n) n = c_string n"
  unfolding strlen_def c_string_def by (rule takeWhile_eq_take[symmetric])

lemma beginElement_collect:
  assumes sink: "addJSONData ctx = collect"
    and lvl: "0 \<le> containerLevel ctx" "containerLevel ctx < int (length (isObject ctx))"
    and name: "isObject ctx ! nat (containerLevel ctx) \<Longrightarrow> name \<noteq> None"
  shows "bsg_ksjsonbeginElement ctx name =
     Some (BSG_KSJSON_OK,
           ctx\<lparr>containerFirstEntry := False,
               userData := userData ctx @ beginElement_text ctx name\<rparr>)"
proof -
  define comma where "comma = (if containerFirstEntry ctx then [] else '','')"
  define c1 where "c1 = ctx\<lparr>containerFirstEntry := False, userData := userData ctx @ comma\<rparr>"
  have s1: "(if containerFirstEntry ctx
            then Some (BSG_KSJSON_OK, ctx\<lparr>containerFirstEntry := False\<rparr>)
            else Some (call_addJSONData ctx '','')) = Some (BSG_KSJSON_OK, c1)"
    using sink by (simp add: c1_def comma_def call_collect)
  have sink1: "addJSONData c1 = collect" using sink by (simp add: c1_def)
  define ws where "ws = (if prettyPrint ctx \<and> containerLevel ctx > 0
      then CHR 0x0A # indent_text (containerLevel ctx) else [])"
  define c2 where "c2 = c1\<lparr>userData := userData c1 @ ws\<rparr>"
  have s2: "(if prettyPrint c1 \<and> containerLevel c1 > 0
             then on_ok (Some (call_addJSONData c1 [CHR 0x0A])) (indent_loop 0)
             else Some (BSG_KSJSON_OK, c1)) = Some (BSG_KSJSON_OK, c2)"
  proof -
    have pp: "prettyPrint c1 = prettyPrint ctx" and lv: "containerLevel c1 = containerLevel ctx"
      by (simp_all add: c1_def)
    show ?thesis
      unfolding pp lv c2_def ws_def using sink1
      by (auto simp: call_collect indent_loop_collect lv)
  qed
  have sink2: "addJSONData c2 = collect" using sink1 by (simp add: c2_def)
  have at: "isObject_at c2 (containerLevel c2) = Some (isObject ctx ! nat (containerLevel ctx))"
    using lvl by (simp add: isObject_at_def c2_def c1_def)
  define nm where "nm = (case name of
        Some n \<Rightarrow>
          if isObject ctx ! nat (containerLevel ctx)
          then [CHR 0x22] @ concat (map json_escape_byte (c_string n)) @ [CHR 0x22] @
               (if prettyPrint ctx then '': '' else '':'')
          else []
      | None \<Rightarrow> [])"
  have s3: "(case isObject_at c2 (containerLevel c2) of
                   None \<Rightarrow> None
                 | Some False \<Rightarrow> Some (BSG_KSJSON_OK, c2)
                 | Some True \<Rightarrow>
                     (case name of
                        None \<Rightarrow> Some (BSG_KSJSON_ERROR_INVALID_DATA, c2)
                      | Some n \<Rightarrow>
                          on_ok (bsg_ksjsoncodec_i_addQuotedEscapedString c2 n (strlen n))
                            (\<lambda>ctx. if prettyPrint ctx
                                   then Some (call_addJSONData ctx '': '')
                                   else Some (call_addJSONData ctx '':''))))
           = Some (BSG_KSJSON_OK, c2\<lparr>userData := userData c2 @ nm\<rparr>)"
  proof (cases "isObject ctx ! nat (containerLevel ctx)")
    case False
    then show ?thesis unfolding at by (cases name) (simp_all add: nm_def)
  next
    case True
    with name obtain n where n: "name = Some n" by auto
    have pp: "prettyPrint c2 = prettyPrint ctx" by (simp add: c2_def c1_def)
    show ?thesis unfolding at n using True sink2
      by (simp add: nm_def n addQuotedEscapedString_collect call_collect take_strlen pp)
  qed
  have tx: "beginElement_text ctx name = comma @ ws @ nm"
    by (simp add: beginElement_text_def comma_def ws_def nm_def)
  have "bsg_ksjsonbeginElement ctx name = Some (BSG_KSJSON_OK, c2\<lparr>userData := userData c2 @ nm\<rparr>)"
    unfolding bsg_ksjsonbeginElement_def s1 on_ok_Some_OK s2 s3 ..
  also have "c2\<lparr>userData := userData c2 @ nm\<rparr> =
      ctx\<lparr>containerFirstEntry := False, userData := userData ctx @ beginElement_text ctx name\<rparr>"
    by (simp add: c2_def c1_def tx)
  finally show ?thesis .
qed

lemma begin_container_collect:
  assumes sink: "addJSONData ctx = collect"
    and lvl: "0 \<le> containerLevel ctx" "containerLevel ctx + 1 < int (length (isObject ctx))"
    and name: "isObject ctx ! nat (containerLevel ctx) \<Longrightarrow> name \<noteq> None"
  shows "begin_container obj bracket ctx name =
     Some (BSG_KSJSON_OK,
           ctx\<lparr>containerLevel := containerLevel ctx + 1,
               isObject := (isObject ctx)[nat (containerLevel ctx + 1) := obj],
               containerFirstEntry := True,
               userData := userData ctx @ beginElement_text ctx name @ [bracket]\<rparr>)"
proof -
  have lvl': "containerLevel ctx < int (length (isObject ctx))" using lvl by simp
  show ?thesis
    using lvl sink
    by (simp add: begin_container_def beginElement_collect[OF sink lvl(1) lvl' name]
        isObject_set_def Let_def call_collect)
qed

lemma endContainer_collect:
  assumes sink: "addJSONData ctx = collect"
    and lvl: "0 < containerLevel ctx" "containerLevel ctx < int (length (isObject ctx))"
  shows "bsg_ksjsonendContainer ctx =
     Some (BSG_KSJSON_OK,
           ctx\<lparr>containerLevel := containerLevel ctx - 1,
               containerFirstEntry := False,
               userData := userData ctx @
                 (if prettyPrint ctx \<and> \<not> containerFirstEntry ctx
                  then CHR 0x0A # indent_text (containerLevel ctx - 1) else []) @
                 [if isObject ctx ! nat (containerLevel ctx) then CHR ''}'' else CHR '']'']\<rparr>)"
  using sink lvl
  by (simp add: bsg_ksjsonendContainer_def isObject_at_def Let_def call_collect
      indent_loop_collect)

subsection \<open>The integer formatters\<close>

lemma digit_value_digit_char: "d < 10 \<Longrightarrow> digit_value (digit_char d) = d"
  by (simp add: digit_value_def digit_char_def)

lemma parse_decimal_append:
  "parse_decimal (s @ [c]) = parse_decimal s * 10 + digit_value c"
  by (simp add: parse_decimal_def)

lemma parse_decimal_decimal: "parse_decimal (decimal n) = n"
proof (induction n rule: decimal.induct)
  case (1 n)
  show ?case
  proof (cases "n < 10")
    case True
    then show ?thesis
      by (simp add: decimal.simps[of n] parse_decimal_def digit_value_digit_char)
  next
    case False
    with "1.IH" show ?thesis
      by (simp add: decimal.simps[of n] parse_decimal_append digit_value_digit_char)
  qed
qed

lemma uint64_digits_decimal: "uint64_digits v buff = decimal (unat v) @ buff"
proof (induction v buff rule: uint64_digits.induct)
  case (1 v buff)
  have d: "unat (v div 10) = unat v div 10" and m: "unat (v mod 10) = unat v mod 10"
    by (simp_all add: unat_div unat_mod)
  show ?case
  proof (cases "v div 10 = 0")
    case True
    then have "unat v div 10 = 0" using d by simp
    then have "unat v < 10" by simp
    then show ?thesis using True m
      by (simp add: uint64_digits.simps[of v buff] decimal.simps[of "unat v"] digit_char_def)
  next
    case False
    then have "unat (v div 10) \<noteq> 0" by (simp add: unat_eq_0)
    then have "unat v div 10 \<noteq> 0" using d by simp
    then have ge: "\<not> unat v < 10" by simp
    from "1.IH"[OF refl refl False]
    show ?thesis using False ge d m
      by (simp add: uint64_digits.simps[of v buff] decimal.simps[of "unat v"] digit_char_def
          Let_def)
  qed
qed

lemma digit_char_0: "digit_char 0 = CHR ''0''"
  unfolding digit_char_def by code_simp

lemma uint64_to_string_decimal: "uint64_to_string v = decimal (unat v)"
proof (cases "v = 0")
  case True
  then show ?thesis by (simp add: uint64_to_string_def decimal.simps[of 0] digit_char_0)
next
  case False
  then show ?thesis by (simp add: uint64_to_string_def uint64_digits_decimal)
qed

lemma digit_char_range: "d < 10 \<Longrightarrow> (of_char (digit_char d) :: nat) = d + 48"
  by (simp add: digit_char_def)

lemma decimal_digits: "c \<in> set (decimal n) \<Longrightarrow> \<exists>d < 10. c = digit_char d"
proof (induction n rule: decimal.induct)
  case (1 n)
  show ?case
  proof (cases "n < 10")
    case True
    with "1.prems" show ?thesis by (auto simp: decimal.simps[of n])
  next
    case False
    with "1.prems" have "c \<in> set (decimal (n div 10)) \<or> c = digit_char (n mod 10)"
      by (auto simp: decimal.simps[of n])
    then show ?thesis
    proof
      assume "c \<in> set (decimal (n div 10))"
      with "1.IH"[OF False] show ?thesis by simp
    next
      assume "c = digit_char (n mod 10)"
      moreover have "n mod 10 < 10" by simp
      ultimately show ?thesis by blast
    qed
  qed
qed

lemma decimal_no_NUL: "CHR 0x00 \<notin> set (decimal n)"
proof
  assume "CHR 0x00 \<in> set (decimal n)"
  then obtain d where "d < 10" "CHR 0x00 = digit_char d" using decimal_digits by blast
  then have "(of_char (CHR 0x00) :: nat) = d + 48" by (simp add: digit_char_range)
  then show False by simp
qed

lemma decimal_not_Nil: "decimal n \<noteq> []"
  by (simp add: decimal.simps[of n])

lemma decimal_no_leading_zero: "0 < n \<Longrightarrow> hd (decimal n) \<noteq> CHR ''0''"
proof (induction n rule: decimal.induct)
  case (1 n)
  show ?case
  proof (cases "n < 10")
    case True
    have "(of_char (digit_char n) :: nat) = n + 48" using True by (rule digit_char_range)
    moreover have "(of_char (CHR ''0'') :: nat) = 48" by simp
    ultimately have "digit_char n \<noteq> CHR ''0''" using "1.prems" by auto
    with True show ?thesis by (simp add: decimal.simps[of n])
  next
    case False
    then have "0 < n div 10" by simp
    with "1.IH" False have "hd (decimal (n div 10)) \<noteq> CHR ''0''" by simp
    with False show ?thesis by (simp add: decimal.simps[of n] decimal_not_Nil)
  qed
qed

lemma length_decimal: "n < 10 ^ k \<Longrightarrow> 0 < k \<Longrightarrow> length (decimal n) \<le> k"
proof (induction n arbitrary: k rule: decimal.induct)
  case (1 n)
  show ?case
  proof (cases "n < 10")
    case True
    with "1.prems" show ?thesis by (simp add: decimal.simps[of n])
  next
    case False
    obtain j where k: "k = Suc j" using "1.prems" by (cases k) auto
    have "n div 10 < 10 ^ j" using "1.prems" k by (simp add: less_mult_imp_div_less mult.commute)
    moreover have "0 < j" using False "1.prems" k by (cases j) auto
    ultimately have "length (decimal (n div 10)) \<le> j" using "1.IH"[OF False] by simp
    with False k show ?thesis by (simp add: decimal.simps[of n])
  qed
qed

lemma length_uint64_to_string: "length (uint64_to_string v) \<le> 20"
proof -
  have "unat v < 2 ^ 64" using unsigned_less[of v] by simp
  also have "(2::nat) ^ 64 < 10 ^ 20" by simp
  finally show ?thesis by (simp add: uint64_to_string_decimal length_decimal)
qed

lemma c_string_no_NUL: "CHR 0x00 \<notin> set s \<Longrightarrow> c_string s = s"
  by (auto simp: c_string_def)

lemma sint_INT64_MIN: "sint INT64_MIN = - (2 ^ 63)"
  by (simp add: INT64_MIN_def)

lemma sint_not_INT64_MIN:
  assumes "v \<noteq> INT64_MIN"
  shows "- (2 ^ 63) < sint v"
proof -
  have "sint v \<noteq> sint INT64_MIN"
    using assms signed_word_eqI[of v INT64_MIN, where 'a = int] by blast
  moreover have "- (2 ^ 63) \<le> sint v" using sint_ge[of v] by simp
  ultimately show ?thesis by (simp add: sint_INT64_MIN)
qed

lemma unat_of_nonneg_sint:
  fixes w :: "64 word"
  assumes "0 \<le> sint w"
  shows "unat w = nat (sint w)"
proof -
  have "sint w < 2 ^ 64" using sint_lt[of w] by simp
  with assms have "take_bit 64 (sint w) = sint w" by (simp add: take_bit_int_eq_self)
  then have "uint w = sint w" using uint_sint[of w] by simp
  moreover have "unat w = nat (uint w)" by simp
  ultimately show ?thesis by (simp only:)
qed

lemma sint_negate:
  fixes v :: "64 word"
  assumes "v \<noteq> INT64_MIN"
  shows "sint (- v) = - sint v"
proof -
  have "- (2 ^ 63) < sint v" using assms by (rule sint_not_INT64_MIN)
  moreover have "sint v < 2 ^ 63" using sint_lt[of v] by simp
  ultimately have "signed_take_bit 63 (- sint v) = - sint v"
    by (simp add: signed_take_bit_int_eq_self)
  then show ?thesis by (simp add: sint_word_minus)
qed

lemma int64_to_string_decimal:
  assumes "v \<noteq> INT64_MIN"
  shows "int64_to_string v =
     Some (if sint v < 0 then CHR ''-'' # decimal (nat (- sint v)) else decimal (nat (sint v)))"
proof (cases "v <s 0")
  case True
  then have neg: "sint v < 0" by (simp add: word_sless_alt)
  have "sint (- v) = - sint v" using assms by (rule sint_negate)
  with neg have "unat (- v) = nat (- sint v)" using unat_of_nonneg_sint[of "- v"] by simp
  with True neg assms show ?thesis
    by (simp add: int64_to_string_def negate_int64_def uint64_to_string_decimal)
next
  case False
  then have nn: "\<not> sint v < 0" by (simp add: word_sless_alt)
  then have "unat v = nat (sint v)" using unat_of_nonneg_sint[of v] by simp
  with False nn show ?thesis
    by (simp add: int64_to_string_def uint64_to_string_decimal)
qed

lemma int64_to_string_INT64_MIN: "int64_to_string INT64_MIN = None"
  by (simp add: int64_to_string_def negate_int64_def word_sless_alt sint_INT64_MIN)

lemma parse_integer_int64_to_string:
  assumes "v \<noteq> INT64_MIN"
  shows "map_option parse_integer (int64_to_string v) = Some (sint v)"
proof (cases "sint v < 0")
  case True
  then show ?thesis
    by (simp add: int64_to_string_decimal[OF assms] parse_integer_def parse_decimal_decimal)
next
  case False
  obtain c cs where d: "decimal (nat (sint v)) = c # cs"
    using decimal_not_Nil[of "nat (sint v)"] by (cases "decimal (nat (sint v))") auto
  have "c \<in> set (decimal (nat (sint v)))" using d by simp
  then obtain k where "k < 10" "c = digit_char k" using decimal_digits by blast
  then have "(of_char c :: nat) = k + 48" by (simp add: digit_char_range)
  then have "c \<noteq> CHR ''-''" by auto
  with False d show ?thesis
    using parse_decimal_decimal[of "nat (sint v)"]
    by (simp add: int64_to_string_decimal[OF assms] parse_integer_def)
qed

lemma uint64_wrapped_INT64_MIN: "uint64_to_string (- INT64_MIN) = ''9223372036854775808''"
  unfolding INT64_MIN_def by code_simp

subsection \<open>Typed adders with a sink that keeps what it receives\<close>

lemma beginElement_ready:
  assumes "addJSONData ctx = collect" and "element_ready ctx name"
  shows "bsg_ksjsonbeginElement ctx name = Some (BSG_KSJSON_OK, element_written ctx name [])"
proof -
  from assms(2) have "0 \<le> containerLevel ctx" "containerLevel ctx < int (length (isObject ctx))"
    "isObject ctx ! nat (containerLevel ctx) \<Longrightarrow> name \<noteq> None"
    by (auto simp: element_ready_def split: if_splits)
  from beginElement_collect[OF assms(1) this] show ?thesis
    by (simp add: element_written_def)
qed

lemma element_written_sink:
  "addJSONData ctx = collect \<Longrightarrow> addJSONData (element_written ctx name body) = collect"
  by (simp add: element_written_def)

lemma call_element_written:
  "addJSONData ctx = collect \<Longrightarrow>
   call_addJSONData (element_written ctx name []) bytes =
     (BSG_KSJSON_OK, element_written ctx name bytes)"
  by (simp add: call_collect element_written_def)

lemma addNullElement_collect:
  assumes "addJSONData ctx = collect" and "element_ready ctx name"
  shows "bsg_ksjsonaddNullElement ctx name =
           Some (BSG_KSJSON_OK, element_written ctx name ''null'')"
  by (simp add: bsg_ksjsonaddNullElement_def beginElement_ready[OF assms]
      call_element_written[OF assms(1)])

lemma addBooleanElement_collect:
  assumes "addJSONData ctx = collect" and "element_ready ctx name"
  shows "bsg_ksjsonaddBooleanElement ctx name v =
           Some (BSG_KSJSON_OK, element_written ctx name (if v then ''true'' else ''false''))"
  by (simp add: bsg_ksjsonaddBooleanElement_def beginElement_ready[OF assms]
      call_element_written[OF assms(1)])

lemma decimal_int_no_NUL: "CHR 0x00 \<notin> set (decimal_int i)"
  by (simp add: decimal_int_def decimal_no_NUL)

lemma take_strlen_no_NUL: "CHR 0x00 \<notin> set s \<Longrightarrow> take (strlen s) s = s"
  by (simp add: take_strlen c_string_no_NUL)

lemma int64_to_string_decimal_int:
  "v \<noteq> INT64_MIN \<Longrightarrow> int64_to_string v = Some (decimal_int (sint v))"
  by (simp add: int64_to_string_decimal decimal_int_def)

lemma addIntegerElement_collect:
  assumes "addJSONData ctx = collect" and "element_ready ctx name" and "v \<noteq> INT64_MIN"
  shows "bsg_ksjsonaddIntegerElement ctx name v =
           Some (BSG_KSJSON_OK, element_written ctx name (decimal_int (sint v)))"
  by (simp add: bsg_ksjsonaddIntegerElement_def beginElement_ready[OF assms(1,2)]
      call_element_written[OF assms(1)] int64_to_string_decimal_int[OF assms(3)]
      take_strlen_no_NUL decimal_int_no_NUL)

lemma addUIntegerElement_collect:
  assumes "addJSONData ctx = collect" and "element_ready ctx name"
  shows "bsg_ksjsonaddUIntegerElement ctx name v =
           Some (BSG_KSJSON_OK, element_written ctx name (decimal (unat v)))"
  by (simp add: bsg_ksjsonaddUIntegerElement_def beginElement_ready[OF assms(1,2)]
      call_element_written[OF assms(1)] uint64_to_string_decimal
      take_strlen_no_NUL decimal_no_NUL)

lemma addStringElement_collect:
  assumes "addJSONData ctx = collect" and "element_ready ctx name"
  shows "bsg_ksjsonaddStringElement size_automatic ctx name (Some m) len =
           Some (BSG_KSJSON_OK, element_written ctx name
              ([CHR 0x22] @
               concat (map json_escape_byte
                 (if len = size_automatic then c_string m else take len m)) @ [CHR 0x22]))"
  by (simp add: bsg_ksjsonaddStringElement_def beginElement_ready[OF assms(1,2)]
      addQuotedEscapedString_collect element_written_sink[OF assms(1)] take_strlen)
     (simp add: element_written_def)

lemma appendData_loop_collect:
  "addJSONData ctx = collect \<Longrightarrow>
   appendData_loop ctx bytes =
     Some (BSG_KSJSON_OK, ctx\<lparr>userData := userData ctx @ concat (map hex_byte bytes)\<rparr>)"
  by (induction bytes arbitrary: ctx) (simp_all add: call_collect hex_byte_def)

lemma addDataElement_collect:
  assumes "addJSONData ctx = collect" and "element_ready ctx name"
  shows "bsg_ksjsonaddDataElement ctx name (Some m) len =
           Some (BSG_KSJSON_OK, element_written ctx name
              ([CHR 0x22] @ concat (map hex_byte (take len m)) @ [CHR 0x22]))"
  by (simp add: bsg_ksjsonaddDataElement_def bsg_ksjsonbeginDataElement_def
      bsg_ksjsonbeginStringElement_def bsg_ksjsonappendDataElement_def
      bsg_ksjsonendDataElement_def bsg_ksjsonendStringElement_def
      beginElement_ready[OF assms(1,2)] call_element_written[OF assms(1)]
      appendData_loop_collect element_written_sink[OF assms(1)] call_collect)
     (simp add: element_written_def)

lemma addFloatingPointElement_collect:
  assumes "addJSONData ctx = collect" and "element_ready ctx name"
  shows "bsg_ksjsonaddFloatingPointElement digits ctx name v =
           Some (BSG_KSJSON_OK, element_written ctx name
              (c_string (double_to_string digits v MAX_SIGNIFICANT_DIGITS)))"
  by (simp add: bsg_ksjsonaddFloatingPointElement_def beginElement_ready[OF assms(1,2)]
      call_element_written[OF assms(1)] take_strlen)

subsection \<open>Raw JSON payloads\<close>

text \<open>The index loop stops where \<open>dropWhile\<close> does.\<close>

lemma skip_whitespace_takeWhile:
  "len \<le> length e \<Longrightarrow> idx \<le> len \<Longrightarrow>
   skip_whitespace e len idx = idx + length (takeWhile json_whitespace (drop idx (take len e)))"
proof (induction e len idx rule: skip_whitespace.induct)
  case (1 element len idx)
  show ?case
  proof (cases "idx < len")
    case False
    then have "skip_whitespace element len idx = idx"
      by (subst skip_whitespace.simps) simp
    with False "1.prems" show ?thesis by simp
  next
    case True
    have "drop idx (take len element) =
        take len element ! idx # drop (Suc idx) (take len element)"
      by (rule Cons_nth_drop_Suc[symmetric]) (use True "1.prems" in simp)
    then have d: "drop idx (take len element) = element ! idx # drop (Suc idx) (take len element)"
      using True by simp
    show ?thesis
    proof (cases "json_whitespace (element ! idx)")
      case False
      then show ?thesis using True d
        by (simp add: skip_whitespace.simps[of element len idx]) (simp add: json_whitespace_def)
    next
      case ws: True
      then have c: "idx < len \<and> (element ! idx = CHR '' '' \<or> element ! idx = CHR 0x0D \<or>
                       element ! idx = CHR 0x0A \<or> element ! idx = CHR 0x09 \<or>
                       element ! idx = CHR 0x0C)"
        using True by (simp add: json_whitespace_def)
      have "skip_whitespace element len (idx + 1) =
          idx + 1 + length (takeWhile json_whitespace (drop (idx + 1) (take len element)))"
        using "1.IH"[OF c] "1.prems" True by simp
      then show ?thesis using c ws d
        by (simp add: skip_whitespace.simps[of element len idx])
    qed
  qed
qed

lemma addJSONElement_by_first_char:
  assumes len: "len \<le> length e"
  shows "bsg_ksjsonaddJSONElement ctx name (Some e) len =
     (case dropWhile json_whitespace (take len e) of
        [] \<Rightarrow> Some (BSG_KSJSON_ERROR_INVALID_DATA, ctx)
      | c # rest \<Rightarrow>
          if json_token_start c
          then on_ok (bsg_ksjsonbeginElement ctx name)
                 (\<lambda>ctx. Some (call_addJSONData ctx (take len e)))
          else Some (BSG_KSJSON_ERROR_INVALID_DATA, ctx))"
proof -
  let ?p = "take len e"
  define idx where "idx = skip_whitespace e len 0"
  have idx: "idx = length (takeWhile json_whitespace ?p)"
    using skip_whitespace_takeWhile[OF len, of 0] by (simp add: idx_def)
  show ?thesis
  proof (cases "dropWhile json_whitespace ?p")
    case Nil
    then have "takeWhile json_whitespace ?p = ?p"
      using takeWhile_dropWhile_id[of json_whitespace ?p] by (simp only: append_Nil2)
    then have "length (takeWhile json_whitespace ?p) = length ?p" by (simp only:)
    then have "idx \<ge> len" using idx len by simp
    then have "bsg_ksjsonaddJSONElement ctx name (Some e) len =
        Some (BSG_KSJSON_ERROR_INVALID_DATA, ctx)"
      by (simp add: bsg_ksjsonaddJSONElement_def idx_def[symmetric])
    then show ?thesis by (simp only: Nil list.case)
  next
    case (Cons c rest)
    have split: "?p = takeWhile json_whitespace ?p @ c # rest"
      using takeWhile_dropWhile_id[of json_whitespace ?p] by (simp only: Cons)
    have "length ?p = length (takeWhile json_whitespace ?p) + Suc (length rest)"
      by (subst split) simp
    then have lt: "idx < len" using idx len by simp
    have "?p ! idx = c"
      unfolding idx by (subst split) (rule nth_append_length)
    then have c: "e ! idx = c" using lt by simp
    have "(c \<in> set ''[{ftn-0123456789'' \<or> c = CHR 0x22) = json_token_start c"
      by (simp add: json_token_start_def)
    with lt c have "bsg_ksjsonaddJSONElement ctx name (Some e) len =
        (if json_token_start c
          then on_ok (bsg_ksjsonbeginElement ctx name)
                 (\<lambda>ctx. Some (call_addJSONData ctx (take len e)))
          else Some (BSG_KSJSON_ERROR_INVALID_DATA, ctx))"
      by (simp add: bsg_ksjsonaddJSONElement_def idx_def[symmetric] Let_def)
    then show ?thesis by (simp only: Cons list.case)
  qed
qed

subsection \<open>Closing containers\<close>

lemma on_ok_cong_ensures:
  assumes "ensures r Q" and "\<And>ctx. Q BSG_KSJSON_OK ctx \<Longrightarrow> f ctx = g ctx"
  shows "on_ok r f = on_ok r g"
proof (cases r)
  case None
  then show ?thesis by simp
next
  case (Some p)
  obtain res ctx where p: "p = (res, ctx)" by (cases p)
  show ?thesis
  proof (cases "res = BSG_KSJSON_OK")
    case True
    with assms Some p show ?thesis by simp
  next
    case False
    with Some p show ?thesis by (simp add: on_ok_Some_fail)
  qed
qed

lemma endEncode_step:
  "0 < containerLevel ctx \<Longrightarrow>
   bsg_ksjsonendEncode ctx = on_ok (bsg_ksjsonendContainer ctx) bsg_ksjsonendEncode"
  by (subst bsg_ksjsonendEncode.simps) (simp add: on_ok_def split: option.splits)

lemma endEncode_close_containers:
  fixes ctx :: "'u BSG_KSJSONEncodeContext"
  shows "containerLevel ctx = int n \<Longrightarrow> bsg_ksjsonendEncode ctx = close_containers n ctx"
proof (induction n arbitrary: ctx)
  case 0
  then show ?case by (subst bsg_ksjsonendEncode.simps) simp
next
  case (Suc n)
  then have pos: "0 < containerLevel ctx" by simp
  have "on_ok (bsg_ksjsonendContainer ctx) bsg_ksjsonendEncode =
        on_ok (bsg_ksjsonendContainer ctx) (close_containers n)"
  proof (rule on_ok_cong_ensures[OF endContainer_level[OF pos]])
    fix c :: "'u BSG_KSJSONEncodeContext"
    assume "containerLevel c = containerLevel ctx - 1"
    with Suc.prems have "containerLevel c = int n" by simp
    then show "bsg_ksjsonendEncode c = close_containers n c" by (rule Suc.IH)
  qed
  then show ?case by (simp add: endEncode_step[OF pos])
qed

lemma close_containers_level:
  fixes ctx :: "'u BSG_KSJSONEncodeContext"
  shows "containerLevel ctx = int n \<Longrightarrow>
   ensures (close_containers n ctx) (\<lambda>res c. res = BSG_KSJSON_OK \<longrightarrow> containerLevel c = 0)"
proof (induction n arbitrary: ctx)
  case 0
  then show ?case by simp
next
  case (Suc n)
  then have pos: "0 < containerLevel ctx" by simp
  show ?case
    unfolding close_containers.simps
  proof (rule ensures_on_ok[OF endContainer_level[OF pos]])
    fix res :: status and c :: "'u BSG_KSJSONEncodeContext"
    assume "res \<noteq> BSG_KSJSON_OK"
    then show "res = BSG_KSJSON_OK \<longrightarrow> containerLevel c = 0" by simp
  next
    fix c :: "'u BSG_KSJSONEncodeContext"
    assume "containerLevel c = containerLevel ctx - 1"
    with Suc.prems have "containerLevel c = int n" by simp
    then show "ensures (close_containers n c)
        (\<lambda>res c. res = BSG_KSJSON_OK \<longrightarrow> containerLevel c = 0)" by (rule Suc.IH)
  qed
qed

lemma close_containers_collect:
  "addJSONData ctx = collect \<Longrightarrow> containerLevel ctx = int n \<Longrightarrow> n < length (isObject ctx) \<Longrightarrow>
   close_containers n ctx =
     Some (BSG_KSJSON_OK,
           ctx\<lparr>containerLevel := 0,
               containerFirstEntry := (if n = 0 then containerFirstEntry ctx else False),
               userData := userData ctx @
                 closing_text (prettyPrint ctx) (containerFirstEntry ctx) (isObject ctx) n\<rparr>)"
proof (induction n arbitrary: ctx)
  case 0
  then show ?case by simp
next
  case (Suc n)
  let ?c = "ctx\<lparr>containerLevel := containerLevel ctx - 1,
               containerFirstEntry := False,
               userData := userData ctx @
                 (if prettyPrint ctx \<and> \<not> containerFirstEntry ctx
                  then CHR 0x0A # indent_text (containerLevel ctx - 1) else []) @
                 [if isObject ctx ! nat (containerLevel ctx) then CHR ''}'' else CHR '']'']\<rparr>"
  have e: "bsg_ksjsonendContainer ctx = Some (BSG_KSJSON_OK, ?c)"
    by (rule endContainer_collect) (use Suc.prems in simp_all)
  have "close_containers n ?c = Some (BSG_KSJSON_OK,
           ?c\<lparr>containerLevel := 0,
               containerFirstEntry := (if n = 0 then containerFirstEntry ?c else False),
               userData := userData ?c @
                 closing_text (prettyPrint ?c) (containerFirstEntry ?c) (isObject ?c) n\<rparr>)"
    by (rule Suc.IH) (use Suc.prems in simp_all)
  then show ?case using Suc.prems by (simp add: e nat_add_distrib)
qed

lemma closing_text_compact:
  "closing_text False first objs n =
     map (\<lambda>i. if objs ! i then CHR ''}'' else CHR '']'') (rev [1..<Suc n])"
  by (induction n arbitrary: first) simp_all

text \<open>
  In a context whose level is an index of \<^verbatim>\<open>isObject\<close>, closing containers does not fault.
\<close>

lemma returns_Some [simp]: "returns (Some (res, ctx)) P = P res ctx"
  by (simp add: returns_def)

lemma returns_None [simp]: "\<not> returns None P"
  by (simp add: returns_def)

lemma returnsD: "returns r P \<Longrightarrow> \<exists>res ctx. r = Some (res, ctx) \<and> P res ctx"
  by (cases r) auto

lemma returns_ensures: "returns r P \<Longrightarrow> ensures r P"
  by (cases r) auto

lemma returns_weaken:
  assumes "returns r Q" and "\<And>res ctx. Q res ctx \<Longrightarrow> P res ctx"
  shows "returns r P"
  using assms by (cases r) auto

lemma returns_on_ok:
  assumes r: "returns r Q"
    and fail: "\<And>res ctx. Q res ctx \<Longrightarrow> res \<noteq> BSG_KSJSON_OK \<Longrightarrow> P res ctx"
    and k: "\<And>ctx. Q BSG_KSJSON_OK ctx \<Longrightarrow> returns (k ctx) P"
  shows "returns (on_ok r k) P"
proof -
  from returnsD[OF r] obtain res ctx where s: "r = Some (res, ctx)" and q: "Q res ctx" by blast
  show ?thesis
  proof (cases "res = BSG_KSJSON_OK")
    case True
    with k q s show ?thesis by simp
  next
    case False
    with fail[OF q] s show ?thesis by (simp add: on_ok_Some_fail)
  qed
qed

lemma returns_call_frame: "returns (Some (call_addJSONData ctx bytes)) (\<lambda>res. same_frame ctx)"
  by (cases "call_addJSONData ctx bytes") (simp add: same_frame_call)

lemma indent_loop_returns: "returns (indent_loop i ctx) (\<lambda>res. same_frame ctx)"
proof (induction i ctx rule: indent_loop.induct)
  case (1 i ctx)
  obtain r c where rc: "call_addJSONData ctx ''    '' = (r, c)" by force
  have f: "same_frame ctx c" using rc by (rule same_frame_call)
  show ?case
  proof (cases "i < containerLevel ctx \<and> r = BSG_KSJSON_OK")
    case True
    then have eq: "indent_loop i ctx = indent_loop (i + 1) c"
      using rc by (simp add: indent_loop.simps[of i ctx])
    have "returns (indent_loop (i + 1) c) (\<lambda>res. same_frame c)"
      using "1.IH"[OF _ rc[symmetric]] True by simp
    then show ?thesis unfolding eq
      by (rule returns_weaken) (rule same_frame_trans[OF f])
  next
    case False
    then show ?thesis using rc f by (auto simp: indent_loop.simps[of i ctx])
  qed
qed

lemma newline_indent_returns:
  "returns (on_ok (Some (call_addJSONData ctx [CHR 0x0A])) (indent_loop 0))
     (\<lambda>res. same_frame ctx)"
proof (rule returns_on_ok[OF returns_call_frame])
  fix res c assume "same_frame ctx c"
  then show "same_frame ctx c" .
next
  fix c assume f: "same_frame ctx c"
  show "returns (indent_loop 0 c) (\<lambda>res. same_frame ctx)"
    by (rule returns_weaken[OF indent_loop_returns]) (rule same_frame_trans[OF f])
qed

lemma endContainer_returns:
  fixes ctx :: "'u BSG_KSJSONEncodeContext"
  assumes pos: "0 < containerLevel ctx" and cap: "containerLevel ctx < int (length (isObject ctx))"
  shows "returns (bsg_ksjsonendContainer ctx)
           (\<lambda>res ctx'. \<not> containerFirstEntry ctx' \<and>
              containerLevel ctx' = containerLevel ctx - 1 \<and> isObject ctx' = isObject ctx)"
proof -
  define obj where "obj = isObject ctx ! nat (containerLevel ctx)"
  have at: "isObject_at ctx (containerLevel ctx) = Some obj"
    using pos cap by (simp add: isObject_at_def obj_def)
  define c1 where "c1 = ctx\<lparr>containerLevel := containerLevel ctx - 1\<rparr>"
  define ws where "ws = (if prettyPrint c1 \<and> \<not> containerFirstEntry c1
                       then on_ok (Some (call_addJSONData c1 [CHR 0x0A])) (indent_loop 0)
                       else Some (BSG_KSJSON_OK, c1))"
  define Q where "Q = (\<lambda>res c. same_frame c1 c \<and> (res \<noteq> BSG_KSJSON_OK \<longrightarrow> \<not> containerFirstEntry c1))"
  have ws: "returns ws Q"
  proof (cases "prettyPrint c1 \<and> \<not> containerFirstEntry c1")
    case False
    then show ?thesis by (auto simp: ws_def Q_def)
  next
    case True
    have "returns (on_ok (Some (call_addJSONData c1 [CHR 0x0A])) (indent_loop 0)) Q"
      by (rule returns_weaken[OF newline_indent_returns]) (use True in \<open>simp add: Q_def\<close>)
    with True show ?thesis by (simp add: ws_def)
  qed
  have eq: "bsg_ksjsonendContainer ctx =
     on_ok ws (\<lambda>ctx. Some (call_addJSONData (ctx\<lparr>containerFirstEntry := False\<rparr>)
                             (if obj then ''}'' else '']'')))"
    using pos at by (simp add: bsg_ksjsonendContainer_def c1_def ws_def Let_def)
  show ?thesis unfolding eq
  proof (rule returns_on_ok[OF ws])
    fix res and c :: "'u BSG_KSJSONEncodeContext"
    assume "Q res c" "res \<noteq> BSG_KSJSON_OK"
    then have f: "same_frame c1 c" and n: "\<not> containerFirstEntry c1" by (simp_all add: Q_def)
    from same_frame_fields[OF f] n
    show "\<not> containerFirstEntry c \<and> containerLevel c = containerLevel ctx - 1 \<and>
          isObject c = isObject ctx"
      by (simp add: c1_def)
  next
    fix c :: "'u BSG_KSJSONEncodeContext"
    assume "Q BSG_KSJSON_OK c"
    then have f: "same_frame c1 c" by (simp add: Q_def)
    obtain r c' where call: "call_addJSONData (c\<lparr>containerFirstEntry := False\<rparr>)
                              (if obj then ''}'' else '']'') = (r, c')" by force
    from call_addJSONData_fields[OF call] same_frame_fields[OF f]
    show "returns (Some (call_addJSONData (c\<lparr>containerFirstEntry := False\<rparr>)
                              (if obj then ''}'' else '']'')))
                 (\<lambda>res ctx'. \<not> containerFirstEntry ctx' \<and>
                    containerLevel ctx' = containerLevel ctx - 1 \<and> isObject ctx' = isObject ctx)"
      unfolding call by (simp add: c1_def)
  qed
qed

lemma close_containers_returns:
  fixes ctx :: "'u BSG_KSJSONEncodeContext"
  shows "containerLevel ctx = int n \<Longrightarrow> n < length (isObject ctx) \<Longrightarrow>
   returns (close_containers n ctx) (\<lambda>res c. res = BSG_KSJSON_OK \<longrightarrow> containerLevel c = 0)"
proof (induction n arbitrary: ctx)
  case 0
  then show ?case by simp
next
  case (Suc n)
  then have pos: "0 < containerLevel ctx"
    and cap: "containerLevel ctx < int (length (isObject ctx))" by simp_all
  show ?case
    unfolding close_containers.simps
  proof (rule returns_on_ok[OF endContainer_returns[OF pos cap]])
    fix res :: status and c :: "'u BSG_KSJSONEncodeContext"
    assume "res \<noteq> BSG_KSJSON_OK"
    then show "res = BSG_KSJSON_OK \<longrightarrow> containerLevel c = 0" by simp
  next
    fix c :: "'u BSG_KSJSONEncodeContext"
    assume "\<not> containerFirstEntry c \<and> containerLevel c = containerLevel ctx - 1 \<and>
            isObject c = isObject ctx"
    with Suc.prems have "containerLevel c = int n" "n < length (isObject c)" by simp_all
    then show "returns (close_containers n c)
        (\<lambda>res c. res = BSG_KSJSON_OK \<longrightarrow> containerLevel c = 0)" by (rule Suc.IH)
  qed
qed

text \<open>
  The integer formatters are right wherever they return: the text is the decimal form,
  it has at most 20 digits, and parsing it gives the number back.
\<close>

lemma uint64_to_string_round_trip:
  "uint64_to_string v = decimal (unat v) \<and> parse_decimal (uint64_to_string v) = unat v \<and>
   length (uint64_to_string v) \<le> 20 \<and>
   (v \<noteq> 0 \<longrightarrow> hd (uint64_to_string v) \<noteq> CHR ''0'')"
proof -
  have "v \<noteq> 0 \<Longrightarrow> 0 < unat v" by (simp add: unat_gt_0)
  then show ?thesis
    using length_uint64_to_string[of v] decimal_no_leading_zero[of "unat v"]
    by (simp add: uint64_to_string_decimal parse_decimal_decimal)
qed

lemma int64_to_string_round_trip:
  assumes "v \<noteq> INT64_MIN"
  shows "int64_to_string v = Some (decimal_int (sint v)) \<and>
         parse_integer (decimal_int (sint v)) = sint v"
  using parse_integer_int64_to_string[OF assms] int64_to_string_decimal_int[OF assms]
  by simp

lemma digit_char_5: "digit_char 5 = CHR ''5''"
  unfolding digit_char_def by code_simp

lemma decimal_int_5: "decimal_int 5 = ''5''"
  by (simp add: decimal_int_def decimal.simps[of 5] digit_char_5)

lemma json_escape_x: "json_escape_byte (CHR ''x'') = ''x''"
  by (simp add: json_escape_byte_def)

lemma INT64_MIN_not_5: "(5 :: 64 word) \<noteq> INT64_MIN"
  by (simp add: INT64_MIN_def)

section \<open>The claims\<close>

subsection \<open>C1: an object with one integer member\<close>

text \<open>
  C1. For a freshly initialised context whose sink keeps what it receives, the calls
  \<^verbatim>\<open>beginObject(NULL)\<close>, \<^verbatim>\<open>addInteger("x", 5)\<close>, \<^verbatim>\<open>endContainer()\<close> all return OK and the sink
  has received exactly \<^verbatim>\<open>{"x":5}\<close> in compact mode, and exactly \<^verbatim>\<open>{\<close>, newline, four
  spaces, \<^verbatim>\<open>"x": 5\<close>, newline, \<^verbatim>\<open>}\<close> in pretty mode. The \<^verbatim>\<open>isObject\<close> array must have room
  for one level above the root.
\<close>

theorem object_with_integer:
  assumes cap: "2 \<le> capacity"
  shows
    "on_ok (bsg_ksjsonbeginObject (bsg_ksjsonbeginEncode capacity False collect []) None)
       (\<lambda>ctx. on_ok (bsg_ksjsonaddIntegerElement ctx (Some ''x'') 5) bsg_ksjsonendContainer) =
     Some (BSG_KSJSON_OK,
           \<lparr>addJSONData = collect,
            userData = [CHR ''{'', CHR 0x22, CHR ''x'', CHR 0x22, CHR '':'', CHR ''5'', CHR ''}''],
            containerLevel = 0, isObject = (replicate capacity False)[1 := True],
            containerFirstEntry = False, prettyPrint = False\<rparr>) \<and>
     on_ok (bsg_ksjsonbeginObject (bsg_ksjsonbeginEncode capacity True collect []) None)
       (\<lambda>ctx. on_ok (bsg_ksjsonaddIntegerElement ctx (Some ''x'') 5) bsg_ksjsonendContainer) =
     Some (BSG_KSJSON_OK,
           \<lparr>addJSONData = collect,
            userData = [CHR ''{'', CHR 0x0A, CHR '' '', CHR '' '', CHR '' '', CHR '' '',
                        CHR 0x22, CHR ''x'', CHR 0x22, CHR '':'', CHR '' '', CHR ''5'',
                        CHR 0x0A, CHR ''}''],
            containerLevel = 0, isObject = (replicate capacity False)[1 := True],
            containerFirstEntry = False, prettyPrint = True\<rparr>)"
proof -
  have run: "on_ok (bsg_ksjsonbeginObject (bsg_ksjsonbeginEncode capacity pretty collect []) None)
       (\<lambda>ctx. on_ok (bsg_ksjsonaddIntegerElement ctx (Some ''x'') 5) bsg_ksjsonendContainer) =
     Some (BSG_KSJSON_OK,
           \<lparr>addJSONData = collect,
            userData = ''{'' @ (if pretty then CHR 0x0A # ''    '' else []) @
                       [CHR 0x22, CHR ''x'', CHR 0x22] @ (if pretty then '': '' else '':'') @
                       ''5'' @ (if pretty then [CHR 0x0A] else []) @ ''}'',
            containerLevel = 0, isObject = (replicate capacity False)[1 := True],
            containerFirstEntry = False, prettyPrint = pretty\<rparr>)" for pretty
  proof -
    define c0 where "c0 = bsg_ksjsonbeginEncode capacity pretty collect []"
    define c1 where "c1 = c0\<lparr>containerLevel := 1, isObject := (isObject c0)[1 := True],
                            containerFirstEntry := True, userData := ''{''\<rparr>"
    have s0: "addJSONData c0 = collect" by (simp add: c0_def bsg_ksjsonbeginEncode_def)
    have b: "bsg_ksjsonbeginObject c0 None = Some (BSG_KSJSON_OK, c1)"
      unfolding bsg_ksjsonbeginObject_def
      by (subst begin_container_collect[OF s0])
         (use cap in \<open>simp_all add: c0_def c1_def bsg_ksjsonbeginEncode_def beginElement_text_def\<close>)
    have s1: "addJSONData c1 = collect" by (simp add: c1_def s0)
    have r1: "element_ready c1 (Some ''x'')"
      using cap by (simp add: element_ready_def c1_def c0_def bsg_ksjsonbeginEncode_def)
    define c2 where "c2 = element_written c1 (Some ''x'') ''5''"
    have a: "bsg_ksjsonaddIntegerElement c1 (Some ''x'') 5 = Some (BSG_KSJSON_OK, c2)"
      by (simp add: addIntegerElement_collect[OF s1 r1 INT64_MIN_not_5] decimal_int_5 c2_def)
    have s2: "addJSONData c2 = collect" by (simp add: c2_def element_written_sink[OF s1])
    have e: "bsg_ksjsonendContainer c2 = Some (BSG_KSJSON_OK,
           c2\<lparr>containerLevel := containerLevel c2 - 1,
               containerFirstEntry := False,
               userData := userData c2 @
                 (if prettyPrint c2 \<and> \<not> containerFirstEntry c2
                  then CHR 0x0A # indent_text (containerLevel c2 - 1) else []) @
                 [if isObject c2 ! nat (containerLevel c2) then CHR ''}'' else CHR '']'']\<rparr>)"
      by (rule endContainer_collect[OF s2])
         (use cap in \<open>simp_all add: c2_def element_written_def c1_def c0_def
            bsg_ksjsonbeginEncode_def\<close>)
    show ?thesis
      unfolding c0_def[symmetric] b on_ok_Some_OK a e
      using cap
      by (simp add: c2_def element_written_def c1_def c0_def bsg_ksjsonbeginEncode_def
          beginElement_text_def indent_text_def c_string_def json_escape_x)
  qed
  show ?thesis using run[of False] run[of True] by simp
qed

text \<open>C1, at the capacity 200: the compact run and what the sink holds after it.\<close>

theorem object_with_integer_witness:
  "(2::nat) \<le> 200 \<and>
   map_option (\<lambda>(res, ctx). (res, userData ctx))
     (on_ok (bsg_ksjsonbeginObject (bsg_ksjsonbeginEncode 200 False collect []) None)
        (\<lambda>ctx. on_ok (bsg_ksjsonaddIntegerElement ctx (Some ''x'') 5) bsg_ksjsonendContainer)) =
   Some (BSG_KSJSON_OK, [CHR ''{'', CHR 0x22, CHR ''x'', CHR 0x22, CHR '':'', CHR ''5'', CHR ''}''])"
proof -
  have h: "(2::nat) \<le> 200" by simp
  show ?thesis using object_with_integer[OF h] by simp
qed

subsection \<open>C2: zero, NaN and the infinities\<close>

text \<open>
  C2, as amended. The double formatter writes \<^verbatim>\<open>0\<close> for zero of either sign, \<^verbatim>\<open>nan\<close> for
  NaN, \<^verbatim>\<open>inf\<close> for positive infinity and \<^verbatim>\<open>-inf\<close> for negative infinity: \<^verbatim>\<open>double_to_string\<close>
  writes the minus sign of every value below zero before it formats the magnitude, and
  negative infinity is below zero.
\<close>

theorem double_special_values:
  "double_to_string digits (Zero s) n = ''0'' \<and>
   double_to_string digits NaN n = ''nan'' \<and>
   double_to_string digits (Infinity False) n = ''inf'' \<and>
   double_to_string digits (Infinity True) n = ''-inf''"
  by (simp add: double_to_string_def positive_double_to_string_def)

text \<open>
  C2 as stated fails: the text of negative infinity is \<^verbatim>\<open>-inf\<close>, not the text of positive
  infinity. (The digits of finite values play no part; they are fixed to the empty text.)
\<close>

theorem negative_infinity_counterexample:
  "double_to_string (\<lambda>v n. []) (Infinity True) MAX_SIGNIFICANT_DIGITS = ''-inf'' \<and>
   double_to_string (\<lambda>v n. []) (Infinity True) MAX_SIGNIFICANT_DIGITS \<noteq>
   double_to_string (\<lambda>v n. []) (Infinity False) MAX_SIGNIFICANT_DIGITS"
  by (simp add: double_to_string_def positive_double_to_string_def)

subsection \<open>C3: raw JSON payloads\<close>

text \<open>
  C3, as amended. For a payload of \<open>len\<close> bytes: when the first byte after the leading
  whitespace is one of \<^verbatim>\<open>[ { " f t n -\<close> or a digit, \<^verbatim>\<open>addJSONElement\<close> is \<^verbatim>\<open>beginElement\<close>
  followed by one call of the sink with all \<open>len\<close> bytes, whitespace included, so with a
  sink that keeps what it receives it returns OK and the sink has received the comma,
  indentation and name of the element and then the payload as it is; when that byte is
  anything else, or the payload is empty or all whitespace, it returns
  \<^verbatim>\<open>BSG_KSJSON_ERROR_INVALID_DATA\<close> and the context, the sink's state included, is as before.
\<close>

theorem raw_json_invalid_data:
  fixes ctx :: "'u BSG_KSJSONEncodeContext" and sctx :: "string BSG_KSJSONEncodeContext"
  assumes "len \<le> length e"
  shows
    "bsg_ksjsonaddJSONElement ctx name (Some e) len =
       (case dropWhile json_whitespace (take len e) of
          [] \<Rightarrow> Some (BSG_KSJSON_ERROR_INVALID_DATA, ctx)
        | c # rest \<Rightarrow>
            if json_token_start c
            then on_ok (bsg_ksjsonbeginElement ctx name)
                   (\<lambda>ctx. Some (call_addJSONData ctx (take len e)))
            else Some (BSG_KSJSON_ERROR_INVALID_DATA, ctx)) \<and>
     (addJSONData sctx = collect \<and> element_ready sctx name \<and>
      dropWhile json_whitespace (take len e) = c # rest \<and> json_token_start c \<longrightarrow>
      bsg_ksjsonaddJSONElement sctx name (Some e) len =
        Some (BSG_KSJSON_OK, element_written sctx name (take len e)))"
proof (intro conjI impI)
  show "bsg_ksjsonaddJSONElement ctx name (Some e) len =
       (case dropWhile json_whitespace (take len e) of
          [] \<Rightarrow> Some (BSG_KSJSON_ERROR_INVALID_DATA, ctx)
        | c # rest \<Rightarrow>
            if json_token_start c
            then on_ok (bsg_ksjsonbeginElement ctx name)
                   (\<lambda>ctx. Some (call_addJSONData ctx (take len e)))
            else Some (BSG_KSJSON_ERROR_INVALID_DATA, ctx))"
    using assms by (rule addJSONElement_by_first_char)
next
  assume a: "addJSONData sctx = collect \<and> element_ready sctx name \<and>
      dropWhile json_whitespace (take len e) = c # rest \<and> json_token_start c"
  then have s: "addJSONData sctx = collect" and r: "element_ready sctx name" by simp_all
  show "bsg_ksjsonaddJSONElement sctx name (Some e) len =
        Some (BSG_KSJSON_OK, element_written sctx name (take len e))"
    using a
    by (simp add: addJSONElement_by_first_char[OF assms] beginElement_ready[OF s r]
        call_element_written[OF s])
qed

text \<open>
  C3, at the two payloads of the specification: two spaces and \<^verbatim>\<open>[1,2]\<close> are written as
  they are; \<^verbatim>\<open>xyz\<close> is refused with nothing written.
\<close>

theorem raw_json_invalid_data_witness:
  "(7::nat) \<le> length ''  [1,2]'' \<and>
   bsg_ksjsonaddJSONElement (bsg_ksjsonbeginEncode 200 False collect []) None
     (Some ''  [1,2]'') 7 =
   Some (BSG_KSJSON_OK,
         (bsg_ksjsonbeginEncode 200 False collect [])
           \<lparr>containerFirstEntry := False, userData := ''  [1,2]''\<rparr>) \<and>
   (3::nat) \<le> length ''xyz'' \<and>
   bsg_ksjsonaddJSONElement (bsg_ksjsonbeginEncode 200 False collect []) None (Some ''xyz'') 3 =
   Some (BSG_KSJSON_ERROR_INVALID_DATA, bsg_ksjsonbeginEncode 200 False collect [])"
proof -
  let ?c = "bsg_ksjsonbeginEncode 200 False collect []"
  have s: "addJSONData ?c = collect" by (simp add: bsg_ksjsonbeginEncode_def)
  have r: "element_ready ?c None" by (simp add: element_ready_def bsg_ksjsonbeginEncode_def)
  have h1: "(7::nat) \<le> length ''  [1,2]''" and h2: "(3::nat) \<le> length ''xyz''" by simp_all
  have b: "bsg_ksjsonbeginElement ?c None = Some (BSG_KSJSON_OK, element_written ?c None [])"
    by (rule beginElement_ready[OF s r])
  show ?thesis
    using raw_json_invalid_data[OF h1, where ctx = ?c and sctx = ?c and name = None
          and c = "CHR ''[''" and rest = "''1,2]''"]
      raw_json_invalid_data[OF h2, where ctx = ?c and sctx = ?c and name = None
          and c = "CHR ''x''" and rest = "''yz''"]
    by (simp add: json_whitespace_def json_token_start_def b call_element_written[OF s] s r)
       (simp add: element_written_def beginElement_text_def bsg_ksjsonbeginEncode_def)
qed

text \<open>
  C3 as stated fails on the status: the payload \<^verbatim>\<open>xyz\<close> is refused with
  \<^verbatim>\<open>BSG_KSJSON_ERROR_INVALID_DATA\<close>, which is not \<^verbatim>\<open>BSG_KSJSON_ERROR_INVALID_CHARACTER\<close>.
\<close>

theorem raw_json_status_counterexample:
  "bsg_ksjsonaddJSONElement (bsg_ksjsonbeginEncode 200 False collect []) None (Some ''xyz'') 3 =
     Some (BSG_KSJSON_ERROR_INVALID_DATA, bsg_ksjsonbeginEncode 200 False collect []) \<and>
   BSG_KSJSON_ERROR_INVALID_DATA \<noteq> BSG_KSJSON_ERROR_INVALID_CHARACTER"
proof -
  have "skip_whitespace ''xyz'' 3 0 = 0"
    by (subst skip_whitespace.simps) simp
  then show ?thesis by (simp add: bsg_ksjsonaddJSONElement_def)
qed

subsection \<open>C4: null value pointers\<close>

text \<open>
  C4. \<^verbatim>\<open>addStringElement\<close> and \<^verbatim>\<open>addJSONElement\<close> with a null value are \<^verbatim>\<open>addNullElement\<close>.
  \<^verbatim>\<open>addDataElement\<close> is not: it has no null check. On a fresh context, with a null value
  and length 0 it writes an empty string, two double quotes, where \<^verbatim>\<open>addNullElement\<close> writes
  \<^verbatim>\<open>null\<close>; with a null value and length 1 it dereferences the null pointer.
\<close>

theorem null_data_pointer_is_not_null_element:
  "bsg_ksjsonaddStringElement size_automatic ctx name None len = bsg_ksjsonaddNullElement ctx name \<and>
   bsg_ksjsonaddJSONElement ctx name None len = bsg_ksjsonaddNullElement ctx name \<and>
   bsg_ksjsonaddNullElement (bsg_ksjsonbeginEncode 200 False collect []) None =
     Some (BSG_KSJSON_OK,
           (bsg_ksjsonbeginEncode 200 False collect [])
             \<lparr>containerFirstEntry := False, userData := ''null''\<rparr>) \<and>
   bsg_ksjsonaddDataElement (bsg_ksjsonbeginEncode 200 False collect []) None None 0 =
     Some (BSG_KSJSON_OK,
           (bsg_ksjsonbeginEncode 200 False collect [])
             \<lparr>containerFirstEntry := False, userData := [CHR 0x22, CHR 0x22]\<rparr>) \<and>
   bsg_ksjsonaddDataElement (bsg_ksjsonbeginEncode 200 False collect []) None None 1 = None"
proof -
  let ?c = "bsg_ksjsonbeginEncode 200 False collect []"
  have s: "addJSONData ?c = collect" by (simp add: bsg_ksjsonbeginEncode_def)
  have r: "element_ready ?c None" by (simp add: element_ready_def bsg_ksjsonbeginEncode_def)
  have b: "bsg_ksjsonbeginElement ?c None = Some (BSG_KSJSON_OK, element_written ?c None [])"
    by (rule beginElement_ready[OF s r])
  have w: "element_written ?c None body = ?c\<lparr>containerFirstEntry := False, userData := body\<rparr>"
    for body
    by (simp add: element_written_def beginElement_text_def bsg_ksjsonbeginEncode_def)
  have n: "bsg_ksjsonaddNullElement ?c None = Some (BSG_KSJSON_OK, element_written ?c None ''null'')"
    by (rule addNullElement_collect[OF s r])
  have d0: "bsg_ksjsonaddDataElement ?c None None 0 =
      Some (BSG_KSJSON_OK, element_written ?c None [CHR 0x22, CHR 0x22])"
    by (simp add: bsg_ksjsonaddDataElement_def bsg_ksjsonbeginDataElement_def
        bsg_ksjsonbeginStringElement_def bsg_ksjsonappendDataElement_def
        bsg_ksjsonendDataElement_def bsg_ksjsonendStringElement_def b
        call_element_written[OF s] call_collect element_written_sink[OF s])
       (simp add: element_written_def)
  have d1: "bsg_ksjsonaddDataElement ?c None None 1 = None"
    by (simp add: bsg_ksjsonaddDataElement_def bsg_ksjsonbeginDataElement_def
        bsg_ksjsonbeginStringElement_def bsg_ksjsonappendDataElement_def b
        call_element_written[OF s])
  show ?thesis
    using n d0 d1
    by (simp add: w bsg_ksjsonaddStringElement_def bsg_ksjsonaddJSONElement_def)
qed

subsection \<open>C5: the smallest 64-bit integer\<close>

text \<open>
  C5. At \<^verbatim>\<open>INT64_MIN\<close> the formatter negates the value in \<^verbatim>\<open>int64_t\<close> before it converts it to
  \<^verbatim>\<open>uint64_t\<close>: the negation overflows. (For every other value the text is right and parses
  back: \<open>int64_to_string_round_trip\<close>.)
\<close>

theorem int64_min_negation_overflows:
  "negate_int64 INT64_MIN = None \<and> int64_to_string INT64_MIN = None"
  by (simp add: int64_to_string_INT64_MIN negate_int64_def)

subsection \<open>C6: the escape of each byte\<close>

text \<open>
  C6. With a sink that keeps what it receives, escaping the first \<open>len\<close> bytes of a string
  returns OK and the sink has received, in order, the escape of each byte as the
  specification words it (\<open>json_escape_byte\<close>), whatever the length: the fast path, the
  flushes of the work buffer and the slices of 512 bytes do not show in the output.
\<close>

theorem escaper_maps_each_byte:
  assumes "addJSONData ctx = collect"
  shows "bsg_ksjsoncodec_i_addEscapedString ctx string len =
     Some (BSG_KSJSON_OK,
           ctx\<lparr>userData := userData ctx @ concat (map json_escape_byte (take len string))\<rparr>)"
  using assms by (rule addEscapedString_collect)

text \<open>
  C6, on the bytes \<^verbatim>\<open>a " b 0x01 tab \ 0x1F 0x7F 0xE9\<close>: the output is
  \<^verbatim>\<open>a\"b\u0001\t\\\u001F\<close> followed by the last two bytes unchanged.
\<close>

theorem escaper_maps_each_byte_witness:
  "bsg_ksjsoncodec_i_addEscapedString (bsg_ksjsonbeginEncode 200 False collect [])
     [CHR ''a'', CHR 0x22, CHR ''b'', CHR 0x01, CHR 0x09, CHR 0x5C, CHR 0x1F, CHR 0x7F, CHR 0xE9] 9 =
   Some (BSG_KSJSON_OK,
         (bsg_ksjsonbeginEncode 200 False collect [])
           \<lparr>userData := [CHR ''a'', CHR 0x5C, CHR 0x22, CHR ''b'',
                         CHR 0x5C, CHR ''u'', CHR ''0'', CHR ''0'', CHR ''0'', CHR ''1'',
                         CHR 0x5C, CHR ''t'', CHR 0x5C, CHR 0x5C,
                         CHR 0x5C, CHR ''u'', CHR ''0'', CHR ''0'', CHR ''1'', CHR ''F'',
                         CHR 0x7F, CHR 0xE9]\<rparr>)"
proof -
  have h: "addJSONData (bsg_ksjsonbeginEncode 200 False collect []) = collect"
    by (simp add: bsg_ksjsonbeginEncode_def)
  show ?thesis
    using escaper_maps_each_byte[OF h, of
        "[CHR ''a'', CHR 0x22, CHR ''b'', CHR 0x01, CHR 0x09, CHR 0x5C, CHR 0x1F, CHR 0x7F, CHR 0xE9]" 9]
    by (simp add: json_escape_byte_def bsg_ksjsonbeginEncode_def)
qed

subsection \<open>C7: the work buffer is never overrun\<close>

text \<open>
  C7. In the model a write is the fault \<open>None\<close> exactly when its position is outside the
  work buffer. \<^verbatim>\<open>addEscapedString\<close> returns for every sink, every string and every length,
  so no write of a run lands outside the buffer; \<^verbatim>\<open>appendEscapedString\<close> returns whenever
  its slice is at most the size of the buffer, which is all the wrapper passes to it.
  (The bound on the slice is needed: \<open>appendEscapedString_unchunked_overrun\<close>.)
\<close>

theorem escaper_stays_inside_work_buffer:
  "(\<exists>r. bsg_ksjsoncodec_i_addEscapedString ctx string len = Some r) \<and>
   (len \<le> BSG_KSJSONCODEC_WorkBufferSize \<longrightarrow>
      (\<exists>r. bsg_ksjsoncodec_i_appendEscapedString ctx string len = Some r)) \<and>
   (put c (workBuffer, dst) = None) = (length workBuffer \<le> dst)"
proof (intro conjI impI)
  show "\<exists>r. bsg_ksjsoncodec_i_addEscapedString ctx string len = Some r"
    unfolding bsg_ksjsoncodec_i_addEscapedString_def by (rule addEscapedString_loop_returns)
next
  assume "len \<le> BSG_KSJSONCODEC_WorkBufferSize"
  then show "\<exists>r. bsg_ksjsoncodec_i_appendEscapedString ctx string len = Some r"
    by (rule appendEscapedString_returns)
next
  show "(put c (workBuffer, dst) = None) = (length workBuffer \<le> dst)"
    by (auto simp: put_def)
qed

text \<open>
  C7, on 1000 control bytes, each of which grows to 6 bytes.
\<close>

theorem escaper_stays_inside_work_buffer_witness:
  "(\<exists>r. bsg_ksjsoncodec_i_addEscapedString (bsg_ksjsonbeginEncode 200 False collect [])
          (replicate 1000 (CHR 0x01)) 1000 = Some r) \<and>
   (512::nat) \<le> BSG_KSJSONCODEC_WorkBufferSize \<and>
   (\<exists>r. bsg_ksjsoncodec_i_appendEscapedString (bsg_ksjsonbeginEncode 200 False collect [])
          (replicate 1000 (CHR 0x01)) 512 = Some r)"
  using escaper_stays_inside_work_buffer[of "bsg_ksjsonbeginEncode 200 False collect []"
      "replicate 1000 (CHR 0x01)" 1000 "CHR 0x01" "[]" 0]
    escaper_stays_inside_work_buffer[of "bsg_ksjsonbeginEncode 200 False collect []"
      "replicate 1000 (CHR 0x01)" 512 "CHR 0x01" "[]" 0]
  by (simp add: BSG_KSJSONCODEC_WorkBufferSize_def)

subsection \<open>C8: endEncode closes every open container\<close>

text \<open>
  C8. At a level \<open>d \<ge> 0\<close>, \<^verbatim>\<open>endEncode\<close> is \<open>d\<close> calls of \<^verbatim>\<open>endContainer\<close>, innermost
  container first, that stop at the first status other than OK and return it; when it
  returns OK the level is 0; and it does return when the level is an index of
  \<^verbatim>\<open>isObject\<close>. With a sink that keeps what it receives it returns OK and the sink has
  received the closing text of the levels \<open>d\<close>, ..., 1 in that order; in compact mode
  that text is the brackets alone, each matching the kind of its level.
\<close>

theorem endEncode_closes_all:
  fixes ctx :: "'u BSG_KSJSONEncodeContext" and sctx :: "string BSG_KSJSONEncodeContext"
  assumes "0 \<le> containerLevel ctx"
  shows "bsg_ksjsonendEncode ctx = close_containers (nat (containerLevel ctx)) ctx \<and>
         ensures (bsg_ksjsonendEncode ctx)
           (\<lambda>res ctx'. res = BSG_KSJSON_OK \<longrightarrow> containerLevel ctx' = 0) \<and>
         (containerLevel ctx < int (length (isObject ctx)) \<longrightarrow>
          (\<exists>res ctx'. bsg_ksjsonendEncode ctx = Some (res, ctx'))) \<and>
         (addJSONData sctx = collect \<and> 0 \<le> containerLevel sctx \<and>
          containerLevel sctx < int (length (isObject sctx)) \<longrightarrow>
          bsg_ksjsonendEncode sctx =
            Some (BSG_KSJSON_OK,
                  sctx\<lparr>containerLevel := 0,
                       containerFirstEntry :=
                         (if containerLevel sctx = 0 then containerFirstEntry sctx else False),
                       userData := userData sctx @
                         closing_text (prettyPrint sctx) (containerFirstEntry sctx)
                           (isObject sctx) (nat (containerLevel sctx))\<rparr>)) \<and>
         closing_text False first objs n =
           map (\<lambda>i. if objs ! i then CHR ''}'' else CHR '']'') (rev [1..<Suc n])"
proof (intro conjI impI)
  from assms have l: "containerLevel ctx = int (nat (containerLevel ctx))" by simp
  show e: "bsg_ksjsonendEncode ctx = close_containers (nat (containerLevel ctx)) ctx"
    by (rule endEncode_close_containers[OF l])
  show "ensures (bsg_ksjsonendEncode ctx)
           (\<lambda>res ctx'. res = BSG_KSJSON_OK \<longrightarrow> containerLevel ctx' = 0)"
    unfolding e by (rule close_containers_level[OF l])
  assume "containerLevel ctx < int (length (isObject ctx))"
  then have "nat (containerLevel ctx) < length (isObject ctx)" using assms by simp
  from returnsD[OF close_containers_returns[OF l this]]
  show "\<exists>res ctx'. bsg_ksjsonendEncode ctx = Some (res, ctx')" unfolding e by blast
next
  assume a: "addJSONData sctx = collect \<and> 0 \<le> containerLevel sctx \<and>
          containerLevel sctx < int (length (isObject sctx))"
  then have l: "containerLevel sctx = int (nat (containerLevel sctx))" by simp
  have n: "nat (containerLevel sctx) < length (isObject sctx)" using a by auto
  have z: "(nat (containerLevel sctx) = 0) = (containerLevel sctx = 0)" using a by auto
  show "bsg_ksjsonendEncode sctx =
            Some (BSG_KSJSON_OK,
                  sctx\<lparr>containerLevel := 0,
                       containerFirstEntry :=
                         (if containerLevel sctx = 0 then containerFirstEntry sctx else False),
                       userData := userData sctx @
                         closing_text (prettyPrint sctx) (containerFirstEntry sctx)
                           (isObject sctx) (nat (containerLevel sctx))\<rparr>)"
    using close_containers_collect[OF _ l n] a
    by (simp add: endEncode_close_containers[OF l] z)
next
  show "closing_text False first objs n =
           map (\<lambda>i. if objs ! i then CHR ''}'' else CHR '']'') (rev [1..<Suc n])"
    by (rule closing_text_compact)
qed

text \<open>
  C8, on an array in an object (closed as \<^verbatim>\<open>]}\<close>), and on three open containers with a
  sink that accepts one call only: the second close fails, its status is returned and
  the outermost container stays open.
\<close>

theorem endEncode_closes_all_witness:
  "(0::int) \<le> 2 \<and>
   bsg_ksjsonendEncode
     \<lparr>addJSONData = collect, userData = ''{[1'', containerLevel = 2,
      isObject = [False, True, False], containerFirstEntry = False, prettyPrint = False\<rparr> =
   Some (BSG_KSJSON_OK,
     \<lparr>addJSONData = collect, userData = ''{[1]}'', containerLevel = 0,
      isObject = [False, True, False], containerFirstEntry = False, prettyPrint = False\<rparr>) \<and>
   bsg_ksjsonendEncode
     \<lparr>addJSONData = accept_only, userData = (1, ''[{[1''), containerLevel = 3,
      isObject = [False, False, True, False], containerFirstEntry = False,
      prettyPrint = False\<rparr> =
   Some (BSG_KSJSON_ERROR_CANNOT_ADD_DATA,
     \<lparr>addJSONData = accept_only, userData = (0, ''[{[1]''), containerLevel = 1,
      isObject = [False, False, True, False], containerFirstEntry = False,
      prettyPrint = False\<rparr>)"
proof -
  let ?s = "\<lparr>addJSONData = collect, userData = ''{[1'', containerLevel = 2,
      isObject = [False, True, False], containerFirstEntry = False, prettyPrint = False\<rparr>"
  let ?a = "\<lparr>addJSONData = accept_only, userData = (1::nat, ''[{[1''), containerLevel = 3,
      isObject = [False, False, True, False], containerFirstEntry = False,
      prettyPrint = False\<rparr>"
  have h: "(0::int) \<le> containerLevel ?a" by simp
  have two: "nat 2 = Suc (Suc 0)" by simp
  show ?thesis
    using endEncode_closes_all[OF h, of ?s False "[False, True, False]" 2]
    by (simp add: two numeral_2_eq_2 numeral_3_eq_3 bsg_ksjsonendContainer_def isObject_at_def
        call_addJSONData_def accept_only_def on_ok_def)
qed

subsection \<open>C9: a second value at the root\<close>

text \<open>
  C9. At level 0, once an element has been written (the first-entry flag is false),
  every operation that begins an element writes a comma first and returns OK with a
  sink that accepts: \<^verbatim>\<open>beginObject\<close>, \<^verbatim>\<open>beginArray\<close>, \<^verbatim>\<open>beginElement\<close> and each typed adder.
  No name is needed, since the root is not an object.
\<close>

theorem second_root_value_gets_comma:
  assumes sink: "addJSONData ctx = collect"
    and root: "containerLevel ctx = 0"
    and later: "\<not> containerFirstEntry ctx"
    and room: "1 < length (isObject ctx)"
    and arr: "\<not> isObject ctx ! 0"
  shows
    "bsg_ksjsonbeginObject ctx name =
       Some (BSG_KSJSON_OK,
             ctx\<lparr>containerLevel := 1, isObject := (isObject ctx)[1 := True],
                 containerFirstEntry := True, userData := userData ctx @ '',{''\<rparr>) \<and>
     bsg_ksjsonbeginArray ctx name =
       Some (BSG_KSJSON_OK,
             ctx\<lparr>containerLevel := 1, isObject := (isObject ctx)[1 := False],
                 containerFirstEntry := True, userData := userData ctx @ '',[''\<rparr>) \<and>
     bsg_ksjsonbeginElement ctx name =
       Some (BSG_KSJSON_OK, ctx\<lparr>userData := userData ctx @ '',''\<rparr>) \<and>
     bsg_ksjsonaddNullElement ctx name =
       Some (BSG_KSJSON_OK, ctx\<lparr>userData := userData ctx @ '',null''\<rparr>) \<and>
     bsg_ksjsonaddBooleanElement ctx name b =
       Some (BSG_KSJSON_OK,
             ctx\<lparr>userData := userData ctx @ '','' @ (if b then ''true'' else ''false'')\<rparr>) \<and>
     bsg_ksjsonaddUIntegerElement ctx name u =
       Some (BSG_KSJSON_OK, ctx\<lparr>userData := userData ctx @ '','' @ decimal (unat u)\<rparr>) \<and>
     (i \<noteq> INT64_MIN \<longrightarrow>
      bsg_ksjsonaddIntegerElement ctx name i =
        Some (BSG_KSJSON_OK,
              ctx\<lparr>userData := userData ctx @ '','' @ decimal_int (sint i)\<rparr>)) \<and>
     bsg_ksjsonaddFloatingPointElement digits ctx name d =
       Some (BSG_KSJSON_OK,
             ctx\<lparr>userData := userData ctx @ '','' @
                    c_string (double_to_string digits d MAX_SIGNIFICANT_DIGITS)\<rparr>) \<and>
     bsg_ksjsonaddStringElement size_automatic ctx name (Some m) len =
       Some (BSG_KSJSON_OK,
             ctx\<lparr>userData := userData ctx @ '','' @ [CHR 0x22] @
                    concat (map json_escape_byte
                      (if len = size_automatic then c_string m else take len m)) @
                    [CHR 0x22]\<rparr>) \<and>
     bsg_ksjsonaddDataElement ctx name (Some m) len =
       Some (BSG_KSJSON_OK,
             ctx\<lparr>userData := userData ctx @ '','' @ [CHR 0x22] @
                    concat (map hex_byte (take len m)) @ [CHR 0x22]\<rparr>) \<and>
     (len \<le> length m \<and> dropWhile json_whitespace (take len m) = c # rest \<and>
      json_token_start c \<longrightarrow>
      bsg_ksjsonaddJSONElement ctx name (Some m) len =
        Some (BSG_KSJSON_OK, ctx\<lparr>userData := userData ctx @ '','' @ take len m\<rparr>))"
proof -
  have ready: "element_ready ctx name"
    using root room arr by (auto simp: element_ready_def)
  have tx: "beginElement_text ctx name = '',''"
    using root later arr by (simp add: beginElement_text_def split: option.splits)
  have w: "element_written ctx name body = ctx\<lparr>userData := userData ctx @ '','' @ body\<rparr>"
    for body
    unfolding element_written_def tx using later
    by (intro BSG_KSJSONEncodeContext.equality) simp_all
  have lvl: "0 \<le> containerLevel ctx" "containerLevel ctx + 1 < int (length (isObject ctx))"
    using root room by simp_all
  have nm: "isObject ctx ! nat (containerLevel ctx) \<Longrightarrow> name \<noteq> None"
    using root arr by simp
  have bc: "begin_container obj bracket ctx name =
       Some (BSG_KSJSON_OK,
             ctx\<lparr>containerLevel := 1, isObject := (isObject ctx)[1 := obj],
                 containerFirstEntry := True, userData := userData ctx @ '','' @ [bracket]\<rparr>)"
    for obj bracket
    using begin_container_collect[OF sink lvl nm, of obj bracket] root by (simp add: tx)
  have be: "bsg_ksjsonbeginElement ctx name =
       Some (BSG_KSJSON_OK, ctx\<lparr>userData := userData ctx @ '',''\<rparr>)"
    using beginElement_ready[OF sink ready] w[of "[]"] by simp
  have ai: "i \<noteq> INT64_MIN \<Longrightarrow> bsg_ksjsonaddIntegerElement ctx name i =
             Some (BSG_KSJSON_OK,
                   ctx\<lparr>userData := userData ctx @ '','' @ decimal_int (sint i)\<rparr>)"
    by (simp add: addIntegerElement_collect[OF sink ready] w)
  have aj: "bsg_ksjsonaddJSONElement ctx name (Some m) len =
        Some (BSG_KSJSON_OK, ctx\<lparr>userData := userData ctx @ '','' @ take len m\<rparr>)"
    if "len \<le> length m" "dropWhile json_whitespace (take len m) = c # rest"
      "json_token_start c"
    using that sink
    by (simp add: addJSONElement_by_first_char be call_collect)
  show ?thesis
    using bc[of True "CHR ''{''"] bc[of False "CHR ''[''"] be ai aj
    by (simp add: bsg_ksjsonbeginObject_def bsg_ksjsonbeginArray_def
        addNullElement_collect[OF sink ready] addBooleanElement_collect[OF sink ready]
        addUIntegerElement_collect[OF sink ready] addFloatingPointElement_collect[OF sink ready]
        addStringElement_collect[OF sink ready] addDataElement_collect[OF sink ready] w)
qed

text \<open>
  C9, on two runs from a fresh context. After \<^verbatim>\<open>beginObject\<close> and \<^verbatim>\<open>endContainer\<close> a second
  container gives \<^verbatim>\<open>{},[\<close>; after \<^verbatim>\<open>addNull\<close> a boolean gives \<^verbatim>\<open>null,true\<close>.
\<close>

theorem second_root_value_gets_comma_witness:
  "on_ok (bsg_ksjsonbeginObject (bsg_ksjsonbeginEncode 200 False collect []) None)
     bsg_ksjsonendContainer =
   Some (BSG_KSJSON_OK,
         \<lparr>addJSONData = collect, userData = ''{}'', containerLevel = 0,
          isObject = (replicate 200 False)[1 := True], containerFirstEntry = False,
          prettyPrint = False\<rparr>) \<and>
   bsg_ksjsonbeginArray
     \<lparr>addJSONData = collect, userData = ''{}'', containerLevel = 0,
      isObject = (replicate 200 False)[1 := True], containerFirstEntry = False,
      prettyPrint = False\<rparr> None =
   Some (BSG_KSJSON_OK,
         \<lparr>addJSONData = collect, userData = ''{},['', containerLevel = 1,
          isObject = replicate 200 False, containerFirstEntry = True,
          prettyPrint = False\<rparr>) \<and>
   bsg_ksjsonaddNullElement (bsg_ksjsonbeginEncode 200 False collect []) None =
   Some (BSG_KSJSON_OK,
         \<lparr>addJSONData = collect, userData = ''null'', containerLevel = 0,
          isObject = replicate 200 False, containerFirstEntry = False,
          prettyPrint = False\<rparr>) \<and>
   bsg_ksjsonaddBooleanElement
     \<lparr>addJSONData = collect, userData = ''null'', containerLevel = 0,
      isObject = replicate 200 False, containerFirstEntry = False,
      prettyPrint = False\<rparr> None True =
   Some (BSG_KSJSON_OK,
         \<lparr>addJSONData = collect, userData = ''null,true'', containerLevel = 0,
          isObject = replicate 200 False, containerFirstEntry = False,
          prettyPrint = False\<rparr>)"
proof -
  let ?c0 = "bsg_ksjsonbeginEncode 200 False collect []"
  let ?c1 = "\<lparr>addJSONData = collect, userData = ''{'', containerLevel = 1,
          isObject = (replicate 200 False)[1 := True], containerFirstEntry = True,
          prettyPrint = False\<rparr>"
  let ?c2 = "\<lparr>addJSONData = collect, userData = ''{}'', containerLevel = 0,
          isObject = (replicate 200 False)[1 := True], containerFirstEntry = False,
          prettyPrint = False\<rparr>"
  let ?n = "\<lparr>addJSONData = collect, userData = ''null'', containerLevel = 0,
          isObject = replicate 200 False, containerFirstEntry = False,
          prettyPrint = False\<rparr>"
  have b: "bsg_ksjsonbeginObject ?c0 None = Some (BSG_KSJSON_OK, ?c1)"
    unfolding bsg_ksjsonbeginObject_def
    by (subst begin_container_collect)
       (simp_all add: bsg_ksjsonbeginEncode_def beginElement_text_def)
  have e: "bsg_ksjsonendContainer ?c1 = Some (BSG_KSJSON_OK, ?c2)"
    by (subst endContainer_collect) simp_all
  have first: "on_ok (bsg_ksjsonbeginObject ?c0 None) bsg_ksjsonendContainer =
      Some (BSG_KSJSON_OK, ?c2)"
    unfolding b on_ok_Some_OK by (rule e)
  have null: "bsg_ksjsonaddNullElement ?c0 None = Some (BSG_KSJSON_OK, ?n)"
    by (subst addNullElement_collect)
       (simp_all add: bsg_ksjsonbeginEncode_def element_ready_def element_written_def
          beginElement_text_def)
  have h: "addJSONData ?c2 = collect" "containerLevel ?c2 = 0" "\<not> containerFirstEntry ?c2"
    "1 < length (isObject ?c2)" "\<not> isObject ?c2 ! 0"
    by simp_all
  have k: "addJSONData ?n = collect" "containerLevel ?n = 0" "\<not> containerFirstEntry ?n"
    "1 < length (isObject ?n)" "\<not> isObject ?n ! 0"
    by simp_all
  have "(replicate 200 False)[1 := True, 1 := False] = replicate 200 False"
    by (simp add: list_eq_iff_nth_eq nth_list_update)
  with first null show ?thesis
    using second_root_value_gets_comma[OF h, where name = None and b = True and u = 0
        and i = 0 and digits = "\<lambda>v n. []" and d = NaN and size_automatic = 0 and m = "[]"
        and len = 0 and c = "CHR ''1''" and rest = "[]"]
      second_root_value_gets_comma[OF k, where name = None and b = True and u = 0
        and i = 0 and digits = "\<lambda>v n. []" and d = NaN and size_automatic = 0 and m = "[]"
        and len = 0 and c = "CHR ''1''" and rest = "[]"]
    by simp
qed

subsection \<open>C10: a closed container counts as an element\<close>

text \<open>
  C10. Whenever \<^verbatim>\<open>endContainer\<close> is called at a level above 0 and returns, with any sink
  and any status, the first-entry flag is false and the level is one less; and it does
  return when the level is an index of \<^verbatim>\<open>isObject\<close>. With a sink that keeps what it
  receives, the next element begun in the parent writes its comma right after the
  closing bracket.
\<close>

theorem endContainer_clears_first_entry:
  fixes ctx :: "'u BSG_KSJSONEncodeContext" and sctx :: "string BSG_KSJSONEncodeContext"
  assumes "0 < containerLevel ctx"
  shows
    "ensures (bsg_ksjsonendContainer ctx)
       (\<lambda>res ctx'. \<not> containerFirstEntry ctx' \<and> containerLevel ctx' = containerLevel ctx - 1) \<and>
     (containerLevel ctx < int (length (isObject ctx)) \<longrightarrow>
      (\<exists>res ctx'. bsg_ksjsonendContainer ctx = Some (res, ctx') \<and>
         \<not> containerFirstEntry ctx' \<and> containerLevel ctx' = containerLevel ctx - 1)) \<and>
     (addJSONData sctx = collect \<and> 0 < containerLevel sctx \<and>
      containerLevel sctx < int (length (isObject sctx)) \<and>
      (isObject sctx ! nat (containerLevel sctx - 1) \<longrightarrow> name \<noteq> None) \<longrightarrow>
      on_ok (bsg_ksjsonendContainer sctx) (\<lambda>parent. bsg_ksjsonbeginElement parent name) =
        Some (BSG_KSJSON_OK,
              sctx\<lparr>containerLevel := containerLevel sctx - 1,
                   containerFirstEntry := False,
                   userData := userData sctx @
                     (if prettyPrint sctx \<and> \<not> containerFirstEntry sctx
                      then CHR 0x0A # indent_text (containerLevel sctx - 1) else []) @
                     [if isObject sctx ! nat (containerLevel sctx) then CHR ''}'' else CHR '']''] @
                     '','' @
                     beginElement_text
                       (sctx\<lparr>containerLevel := containerLevel sctx - 1,
                             containerFirstEntry := True\<rparr>) name\<rparr>))"
proof (intro conjI impI)
  show "ensures (bsg_ksjsonendContainer ctx)
       (\<lambda>res ctx'. \<not> containerFirstEntry ctx' \<and> containerLevel ctx' = containerLevel ctx - 1)"
    using assms by (rule endContainer_pops)
next
  assume "containerLevel ctx < int (length (isObject ctx))"
  from returnsD[OF endContainer_returns[OF assms this]]
  show "\<exists>res ctx'. bsg_ksjsonendContainer ctx = Some (res, ctx') \<and>
         \<not> containerFirstEntry ctx' \<and> containerLevel ctx' = containerLevel ctx - 1"
    by blast
next
  assume a: "addJSONData sctx = collect \<and> 0 < containerLevel sctx \<and>
      containerLevel sctx < int (length (isObject sctx)) \<and>
      (isObject sctx ! nat (containerLevel sctx - 1) \<longrightarrow> name \<noteq> None)"
  define closing where "closing =
     (if prettyPrint sctx \<and> \<not> containerFirstEntry sctx
      then CHR 0x0A # indent_text (containerLevel sctx - 1) else []) @
     [if isObject sctx ! nat (containerLevel sctx) then CHR ''}'' else CHR '']'']"
  define parent where "parent = sctx\<lparr>containerLevel := containerLevel sctx - 1,
     containerFirstEntry := False, userData := userData sctx @ closing\<rparr>"
  have e: "bsg_ksjsonendContainer sctx = Some (BSG_KSJSON_OK, parent)"
    unfolding parent_def closing_def by (rule endContainer_collect) (use a in simp_all)
  have s: "addJSONData parent = collect" using a by (simp add: parent_def)
  have r: "element_ready parent name" using a by (auto simp: element_ready_def parent_def)
  have tx: "beginElement_text parent name =
      '','' @ beginElement_text (sctx\<lparr>containerLevel := containerLevel sctx - 1,
                             containerFirstEntry := True\<rparr>) name"
    by (cases name) (simp_all add: beginElement_text_def parent_def)
  show "on_ok (bsg_ksjsonendContainer sctx) (\<lambda>parent. bsg_ksjsonbeginElement parent name) =
        Some (BSG_KSJSON_OK,
              sctx\<lparr>containerLevel := containerLevel sctx - 1,
                   containerFirstEntry := False,
                   userData := userData sctx @
                     (if prettyPrint sctx \<and> \<not> containerFirstEntry sctx
                      then CHR 0x0A # indent_text (containerLevel sctx - 1) else []) @
                     [if isObject sctx ! nat (containerLevel sctx) then CHR ''}'' else CHR '']''] @
                     '','' @
                     beginElement_text
                       (sctx\<lparr>containerLevel := containerLevel sctx - 1,
                             containerFirstEntry := True\<rparr>) name\<rparr>)"
    unfolding e on_ok_Some_OK beginElement_ready[OF s r] element_written_def tx
    by (simp add: parent_def closing_def)
qed

text \<open>
  C10, on an empty inner array: with a sink that refuses the bracket the flag is false
  all the same; with a sink that accepts, \<^verbatim>\<open>[[\<close> continues as \<^verbatim>\<open>[[],\<close>.
\<close>

theorem endContainer_clears_first_entry_witness:
  "(0::int) < 2 \<and>
   bsg_ksjsonendContainer
     \<lparr>addJSONData = accept_only, userData = (0, ''[[''), containerLevel = 2,
      isObject = [False, False, False], containerFirstEntry = True, prettyPrint = True\<rparr> =
   Some (BSG_KSJSON_ERROR_CANNOT_ADD_DATA,
     \<lparr>addJSONData = accept_only, userData = (0, ''[[''), containerLevel = 1,
      isObject = [False, False, False], containerFirstEntry = False, prettyPrint = True\<rparr>) \<and>
   on_ok (bsg_ksjsonendContainer
     \<lparr>addJSONData = collect, userData = ''[['', containerLevel = 2,
      isObject = [False, False, False], containerFirstEntry = True, prettyPrint = False\<rparr>)
     (\<lambda>parent. bsg_ksjsonbeginElement parent None) =
   Some (BSG_KSJSON_OK,
     \<lparr>addJSONData = collect, userData = ''[[],'', containerLevel = 1,
      isObject = [False, False, False], containerFirstEntry = False, prettyPrint = False\<rparr>)"
proof -
  let ?a = "\<lparr>addJSONData = accept_only, userData = (0::nat, ''[[''), containerLevel = 2,
      isObject = [False, False, False], containerFirstEntry = True, prettyPrint = True\<rparr>"
  let ?s = "\<lparr>addJSONData = collect, userData = ''[['', containerLevel = 2,
      isObject = [False, False, False], containerFirstEntry = True, prettyPrint = False\<rparr>"
  have h: "0 < containerLevel ?a" by simp
  show ?thesis
    using endContainer_clears_first_entry[OF h, of ?s None]
    by (simp add: bsg_ksjsonendContainer_def isObject_at_def call_addJSONData_def
        accept_only_def on_ok_def beginElement_text_def numeral_2_eq_2)
qed

end
